theory Spec2Isabelle
  imports Main "HOL-Library.Sublist"
begin

section \<open>JavaScript values\<close>

text \<open>
  The configuration module builds one object literal and merges user settings into it
  with \<^verbatim>\<open>Object.assign\<close>. An object is the list of its own enumerable properties in
  insertion order (keys are distinct in a well-formed object); an array is a list.
\<close>

datatype jsval =
    JUndefined
  | JBool bool
  | JNum int
  | JStr string
  | JArr "jsval list"
  | JObj "(string \<times> jsval) list"

type_synonym jsobject = "(string \<times> jsval) list"

text \<open>\<^verbatim>\<open>target[key] = value\<close>: an existing property keeps its position, a new one is appended.\<close>

fun set_property :: "string \<Rightarrow> jsval \<Rightarrow> jsobject \<Rightarrow> jsobject" where
  "set_property k v [] = [(k, v)]"
| "set_property k v (p # ps) = (if fst p = k then (k, v) # ps else p # set_property k v ps)"

text \<open>
  \<^verbatim>\<open>Object.assign(target, source)\<close> assigns every own enumerable property of the source
  to the target, in the source's order, and returns the (mutated) target.
\<close>

fun Object_assign :: "jsobject \<Rightarrow> jsobject \<Rightarrow> jsobject" where
  "Object_assign target [] = target"
| "Object_assign target ((k, v) # source) = Object_assign (set_property k v target) source"

text \<open>\<^verbatim>\<open>obj[key]\<close>: \<open>None\<close> when the object has no such property.\<close>

definition get_property :: "jsobject \<Rightarrow> string \<Rightarrow> jsval option" where
  "get_property obj k = map_of obj k"

definition well_formed :: "jsobject \<Rightarrow> bool" where
  "well_formed obj = distinct (map fst obj)"

section \<open>Configuration module (config.ts)\<close>

definition buttons_continue :: "string list" where
  "buttons_continue =
    [''#ctl00_ContentPlaceHolderMP_myButton'',
     ''input[name=\"ctl00$ContentPlaceHolderMP$myButton\"]'',
     ''input.h-ContinueButton'',
     ''input.btn-default[value=\"Continue\"]'',
     ''input[value=\"Continue\"]'',
     ''input[type=\"button\"][class*=\"ContinueButton\"]'']"

definition buttons_scheduleAppointment :: "string list" where
  "buttons_scheduleAppointment =
    [''a.h-SelectAssureBtn'',
     ''.ctx-changer[data-type=\"3\"]'',
     ''.thumbnail.tmbArrow:contains(\"Schedule an appointment\")'',
     ''a:has(.thumbnail.tmbArrow):contains(\"Schedule an appointment\")'',
     ''a.h-SelectAssureBtn[data-type=\"3\"]'']"

definition buttons_search :: "string list" where
  "buttons_search =
    [''button.h-SearchButton'',
     (''button.btn-primary:contains('' @ [CHR 0x27] @ ''Search'' @ [CHR 0x27] @ '')''),
     (''.btn-primary:contains('' @ [CHR 0x27] @ ''Search'' @ [CHR 0x27] @ '')''),
     ''button.btn-primary'',
     ''.text-center button'']"

definition selectors_formFields :: jsval where
  "selectors_formFields =
    JObj
     [(''firstName'', JArr
       [JStr ''#ctl00_ContentPlaceHolderMP_AssureForm_FirstName'',
        JStr ''input[name=\"ctl00$ContentPlaceHolderMP$AssureForm_FirstName\"]'',
        JStr ''input.h-FirstName'',
        JStr ''input[class*=\"FirstName\"]'',
        JStr ''input[placeholder*=\"first name\" i]'']),
      (''lastName'', JArr
       [JStr ''#ctl00_ContentPlaceHolderMP_AssureForm_LastName'',
        JStr ''input[name=\"ctl00$ContentPlaceHolderMP$AssureForm_LastName\"]'',
        JStr ''input.h-LastName'',
        JStr ''input[class*=\"LastName\"]'',
        JStr ''input[placeholder*=\"last name\" i]'']),
      (''healthInsuranceNumber'', JArr
       [JStr ''#ctl00_ContentPlaceHolderMP_AssureForm_NAM'',
        JStr ''input[name=\"ctl00$ContentPlaceHolderMP$AssureForm_NAM\"]'',
        JStr ''input.h-NAM'',
        JStr ''input[data-mask=\"SSSS 0000 00A0\"]'',
        JStr ''input[class*=\"NAM\"]'']),
      (''sequentialNumber'', JArr
       [JStr ''#ctl00_ContentPlaceHolderMP_AssureForm_CardSeqNumber'',
        JStr ''input[name=\"ctl00$ContentPlaceHolderMP$AssureForm_CardSeqNumber\"]'',
        JStr ''input.h-CardSeqNumber'',
        JStr ''input.AssureForm_CardSeqNumber'',
        JStr ''input[class*=\"CardSeqNumber\"]'',
        JStr ''input[maxlength=\"2\"]'']),
      (''dateOfBirthDay'', JArr
       [JStr ''#ctl00_ContentPlaceHolderMP_AssureForm_Day'',
        JStr ''input[name=\"ctl00$ContentPlaceHolderMP$AssureForm_Day\"]'',
        JStr ''input.AssureForm_Day'',
        JStr ''input[class*=\"Day\"]'',
        JStr ''input[maxlength=\"2\"]:not([id*=\"CardSeqNumber\"])'']),
      (''dateOfBirthMonth'', JArr
       [JStr ''#ctl00_ContentPlaceHolderMP_AssureForm_Month'',
        JStr ''select[name=\"ctl00$ContentPlaceHolderMP$AssureForm_Month\"]'',
        JStr ''select.AssureForm_Month'',
        JStr ''select[class*=\"Month\"]'',
        JStr ''select:not([id*=\"Year\"]):not([id*=\"Day\"])'']),
      (''dateOfBirthYear'', JArr
       [JStr ''#ctl00_ContentPlaceHolderMP_AssureForm_Year'',
        JStr ''input[name=\"ctl00$ContentPlaceHolderMP$AssureForm_Year\"]'',
        JStr ''input.AssureForm_Year'',
        JStr ''input[class*=\"Year\"]'',
        JStr ''input[maxlength=\"4\"]'']),
      (''agreeToTerms'', JArr
       [JStr ''#AssureForm_CSTMT'',
        JStr ''input.AssureForm_CSTMT'',
        JStr ''input[value=\"true\"][type=\"checkbox\"]'',
        JStr ''input[type=\"checkbox\"][class*=\"CSTMT\"]'']),
      (''searchDate'', JArr
       [JStr ''#DateRangeStart'',
        JStr ''input.h-DateRangeStart'',
        JStr ''input[placeholder=\"dd-mm-yyyy\"]'',
        JStr ''input.calendarFix'',
        JStr ''input.findOnKeyPress'']),
      (''postalCode'', JArr
       [JStr ''#PostalCode'',
        JStr ''input[aria-label=\"Your postal code\"]'',
        JStr ''input[data-mask=\"S0S 0S0\"]'',
        JStr ''input[data-majus=\"true\"]'',
        JStr ''input.findOnKeyPress[maxlength=\"7\"]'']),
      (''searchRadius'', JArr
       [JStr ''#perimeterCombo'',
        JStr ''select[name=\"perimeterCombo\"]'',
        JStr ''select[id=\"perimeterCombo\"]'']),
      (''timePreferences'', JObj
       [(''morning'', JArr
         [JStr ''#chkMatin'',
          JStr ''input[aria-label=\"Morning\"]'',
          JStr ''input[id=\"chkMatin\"]'']),
        (''afternoon'', JArr
         [JStr ''#chkPm'',
          JStr ''input[aria-label=\"Afternoon\"]'',
          JStr ''input[id=\"chkPm\"]'']),
        (''evening'', JArr
         [JStr ''#chkSoir'',
          JStr ''input[aria-label=\"Evening\"]'',
          JStr ''input[id=\"chkSoir\"]''])]),
      (''appointmentReason'', JArr
       [JStr ''#consultingReason'',
        JStr ''select[name=\"consultingReason\"]'',
        JStr ''select.h-consultingReason''])]"

definition selectors_buttons :: jsval where
  "selectors_buttons =
    JObj
     [(''continue'', JArr (map JStr buttons_continue)),
      (''scheduleAppointment'', JArr (map JStr buttons_scheduleAppointment)),
      (''search'', JArr (map JStr buttons_search))]"

definition selectors_appointmentResults :: jsval where
  "selectors_appointmentResults =
    JObj
     [(''resultsContainer'', JArr
       [JStr ''.results-container'',
        JStr ''#results'',
        JStr ''.appointment-results'']),
      (''appointmentItems'', JArr
       [JStr ''.appointment-item'',
        JStr ''.result-item'',
        JStr ''.clinic-result'']),
      (''noResults'', JArr
       [JStr ''.no-results-message'',
        JStr ''.empty-results'',
        JStr (''div:contains('' @ [CHR 0x27] @ ''No appointments available'' @ [CHR 0x27] @ '')'')])]"

definition selectors_errorMessages :: jsval where
  "selectors_errorMessages =
    JObj
     [(''accessDenied'', JArr
       [JStr (''.ErrorMessage_ServicesAccessDenied:not([style*='' @ [CHR 0x27] @ ''display: none'' @ [CHR 0x27] @ ''])''),
        JStr ''.ErrorMessage_ServicesAccessDenied:visible'',
        JStr (''.alert:contains('' @ [CHR 0x27] @ ''does not match any RAMQ record'' @ [CHR 0x27] @ '')'')]),
      (''captchaInvalid'', JArr
       [JStr (''.ErrorMessage_CaptchaInvalid:not([style*='' @ [CHR 0x27] @ ''display: none'' @ [CHR 0x27] @ ''])''),
        JStr ''.ErrorMessage_CaptchaInvalid:visible'',
        JStr (''.alert:contains('' @ [CHR 0x27] @ ''characters you have entered do not match'' @ [CHR 0x27] @ '')'')]),
      (''missingFields'', JArr
       [JStr (''.ErrorMessage_FillAllFields:not([style*='' @ [CHR 0x27] @ ''display: none'' @ [CHR 0x27] @ ''])''),
        JStr ''.ErrorMessage_FillAllFields:visible'',
        JStr (''.alert:contains('' @ [CHR 0x27] @ ''Please fill out all the fields'' @ [CHR 0x27] @ '')'')]),
      (''invalidDate'', JArr
       [JStr (''.ErrorMessage_InvalideDateformat:not([style*='' @ [CHR 0x27] @ ''display: none'' @ [CHR 0x27] @ ''])''),
        JStr ''.ErrorMessage_InvalideDateformat:visible'',
        JStr (''.alert:contains('' @ [CHR 0x27] @ ''date entered is invalid'' @ [CHR 0x27] @ '')'')]),
      (''anyError'', JArr
       [JStr (''.alert:not([style*='' @ [CHR 0x27] @ ''display: none'' @ [CHR 0x27] @ ''])''),
        JStr ''.alert:visible'',
        JStr ''.ErrorMessage_*:visible''])]"

definition config_searchBehavior :: jsval where
  "config_searchBehavior =
    JObj
     [(''searchInterval'', JNum 30000),
      (''maxSearchAttempts'', JNum 0),
      (''playSoundOnFound'', JBool True),
      (''stopOnFound'', JBool False)]"

definition config_timeouts :: jsval where
  "config_timeouts =
    JObj
     [(''elementWait'', JNum 30000),
      (''pageTransition'', JNum 5000)]"

definition config_selectors :: jsval where
  "config_selectors =
    JObj
     [(''formFields'', selectors_formFields),
      (''buttons'', selectors_buttons),
      (''appointmentResults'', selectors_appointmentResults),
      (''errorMessages'', selectors_errorMessages)]"

text \<open>
  \<^verbatim>\<open>AUTOMATION_CONFIG\<close>. The section \<^verbatim>\<open>appointmentData\<close> holds the user's personal data
  (names, insurance number, date of birth, postal code, radius, reason); it is taken as
  a parameter here, every other section is the literal of the source.
\<close>

definition AUTOMATION_CONFIG :: "jsval \<Rightarrow> jsobject" where
  "AUTOMATION_CONFIG appointmentData =
    [(''appointmentData'', appointmentData),
     (''searchBehavior'', config_searchBehavior),
     (''selectors'', config_selectors),
     (''timeouts'', config_timeouts)]"

text \<open>
  \<^verbatim>\<open>export function updateConfig(newConfig) { Object.assign(AUTOMATION_CONFIG, newConfig); }\<close>
  The module-level object is the state; the function returns its new value.
\<close>

definition updateConfig :: "jsobject \<Rightarrow> jsobject \<Rightarrow> jsobject" where
  "updateConfig config newConfig = Object_assign config newConfig"

section \<open>Logging (utils.ts, class Logger)\<close>

text \<open>
  A message built by a template literal is kept as the sequence of its literal chunks and
  of the values substituted into it (numbers are not rendered to digits). \<open>E name msg\<close> is
  an error object handed to the console as a further argument.
\<close>

datatype piece = S string | N int | E string "piece list"

type_synonym message = "piece list"

text \<open>A thrown value: the error's name (\<^verbatim>\<open>Error\<close>, \<^verbatim>\<open>TypeError\<close>, \<^verbatim>\<open>SyntaxError\<close>) and its message.\<close>

datatype js_error = JsError string message

fun error_piece :: "js_error \<Rightarrow> piece" where
  "error_piece (JsError name msg) = E name msg"

datatype level = Info | Error | Warn | Success

type_synonym log_entry = "level \<times> message"

text \<open>\<^verbatim>\<open>console.log(`[${this.prefix}] ${msg}`)\<close> and its siblings, appended to the console.\<close>

definition logger :: "string \<Rightarrow> level \<Rightarrow> message \<Rightarrow> log_entry" where
  "logger pfx lvl msg = (lvl, S (''['' @ pfx @ ''] '') # msg)"

text \<open>
  \<^verbatim>\<open>AutomationController.updateConfig\<close> (content script): updates the module's configuration
  and logs with the default logger (prefix \<^verbatim>\<open>CLIQ\<close>).
\<close>

definition controller_updateConfig ::
  "jsobject \<times> log_entry list \<Rightarrow> jsobject \<Rightarrow> jsobject \<times> log_entry list" where
  "controller_updateConfig st newConfig =
     (updateConfig (fst st) newConfig, snd st @ [logger ''CLIQ'' Info [S ''Configuration updated'']])"

section \<open>Properties of the configuration update\<close>

lemma map_of_set_property:
  "map_of (set_property k v obj) = (map_of obj)(k \<mapsto> v)"
  by (induction obj) (auto simp: fun_eq_iff)

lemma map_of_Object_assign_absent:
  "k \<notin> fst ` set source \<Longrightarrow> map_of (Object_assign target source) k = map_of target k"
  by (induction target source rule: Object_assign.induct) (auto simp: map_of_set_property)

lemma map_of_Object_assign_present:
  "distinct (map fst source) \<Longrightarrow> (k, v) \<in> set source \<Longrightarrow>
   map_of (Object_assign target source) k = Some v"
proof (induction target source rule: Object_assign.induct)
  case (1 target)
  then show ?case by simp
next
  case (2 target k' v' source)
  show ?case
  proof (cases "(k, v) = (k', v')")
    case True
    with 2 have "k \<notin> fst ` set source" by auto
    then have "map_of (Object_assign (set_property k' v' target) source) k
             = map_of (set_property k' v' target) k"
      by (rule map_of_Object_assign_absent)
    with True show ?thesis by (simp add: map_of_set_property)
  next
    case False
    with 2 show ?thesis by auto
  qed
qed

text \<open>
  Claim C9. The configuration update is a shallow merge: a top-level key of the partial
  configuration gets exactly the partial's value for it (the section is replaced as a
  whole, whatever nested fields the old section had), and a top-level key the partial does
  not have keeps its old value. The controller's method does the same to the configuration.
\<close>

theorem updateConfig_shallow_merge:
  assumes "well_formed newConfig"
  shows "get_property (updateConfig config newConfig) k =
           (case get_property newConfig k of
              Some v \<Rightarrow> Some v
            | None \<Rightarrow> get_property config k)
         \<and> fst (controller_updateConfig (config, lg) newConfig) = updateConfig config newConfig"
proof (cases "get_property newConfig k")
  case None
  then have "k \<notin> fst ` set newConfig"
    by (simp add: get_property_def map_of_eq_None_iff)
  then show ?thesis
    using None
    by (simp add: get_property_def updateConfig_def controller_updateConfig_def
        map_of_Object_assign_absent)
next
  case (Some v)
  then have "(k, v) \<in> set newConfig"
    by (simp add: get_property_def map_of_SomeD)
  with assms show ?thesis
    using Some
    by (simp add: get_property_def updateConfig_def controller_updateConfig_def well_formed_def
        map_of_Object_assign_present)
qed

theorem updateConfig_shallow_merge_witness:
  "well_formed [(''searchBehavior'', JObj [(''searchInterval'', JNum 5000)])]
   \<and> get_property
        (updateConfig (AUTOMATION_CONFIG (JObj [(''firstName'', JStr ''John'')]))
           [(''searchBehavior'', JObj [(''searchInterval'', JNum 5000)])])
        ''searchBehavior'' = Some (JObj [(''searchInterval'', JNum 5000)])
   \<and> get_property
        (updateConfig (AUTOMATION_CONFIG (JObj [(''firstName'', JStr ''John'')]))
           [(''searchBehavior'', JObj [(''searchInterval'', JNum 5000)])])
        ''timeouts'' = Some config_timeouts"
proof -
  have wf: "well_formed [(''searchBehavior'', JObj [(''searchInterval'', JNum 5000)])]"
    by (simp add: well_formed_def)
  show ?thesis
    using wf
      updateConfig_shallow_merge [OF wf, of "AUTOMATION_CONFIG (JObj [(''firstName'', JStr ''John'')])"
        "''searchBehavior''"]
      updateConfig_shallow_merge [OF wf, of "AUTOMATION_CONFIG (JObj [(''firstName'', JStr ''John'')])"
        "''timeouts''"]
    by (simp add: get_property_def AUTOMATION_CONFIG_def)
qed

section \<open>Continuous search loop (appointment-search.ts, class AppointmentSearchAutomation)\<close>

text \<open>The section \<^verbatim>\<open>searchBehavior\<close> of the configuration, as the class reads it.\<close>

record searchBehavior =
  searchInterval :: int
  maxSearchAttempts :: int
  playSoundOnFound :: bool
  stopOnFound :: bool

text \<open>
  One instance of the class together with the part of the page it acts on: the interval
  timers of \<^verbatim>\<open>window\<close> that are active, the next timer handle, the console, the
  notifications shown. \<open>this_searchInterval\<close> is the field \<^verbatim>\<open>this.searchInterval\<close> (a timer
  handle or null); \<open>in_flight\<close> counts the calls of \<^verbatim>\<open>searchForAppointment\<close> that have begun
  and not yet settled.
\<close>

record search_automation =
  config :: searchBehavior
  this_searchInterval :: "nat option"
  searchAttempts :: nat
  isSearching :: bool
  in_flight :: nat
  timers :: "nat list"
  next_timer :: nat
  console :: "log_entry list"
  banners :: nat
  sounds :: nat

definition log_search :: "level \<Rightarrow> message \<Rightarrow> search_automation \<Rightarrow> search_automation" where
  "log_search lvl msg s = s\<lparr>console := console s @ [logger ''AppointmentSearch'' lvl msg]\<rparr>"

text \<open>The constructor: field initialisers, on a page with no timer of this instance.\<close>

definition new_AppointmentSearchAutomation :: "searchBehavior \<Rightarrow> search_automation" where
  "new_AppointmentSearchAutomation cfg =
     \<lparr>config = cfg, this_searchInterval = None, searchAttempts = 0, isSearching = False,
      in_flight = 0, timers = [], next_timer = 1, console = [], banners = 0, sounds = 0\<rparr>"

text \<open>\<^verbatim>\<open>window.setInterval\<close> returns a fresh handle; \<^verbatim>\<open>window.clearInterval\<close> removes it.\<close>

definition setInterval :: "search_automation \<Rightarrow> nat \<times> search_automation" where
  "setInterval s = (next_timer s, s\<lparr>timers := timers s @ [next_timer s], next_timer := Suc (next_timer s)\<rparr>)"

definition clearInterval :: "nat \<Rightarrow> search_automation \<Rightarrow> search_automation" where
  "clearInterval h s = s\<lparr>timers := removeAll h (timers s)\<rparr>"

definition stopContinuousSearch :: "search_automation \<Rightarrow> search_automation" where
  "stopContinuousSearch s =
     (if \<not> isSearching s then log_search Warn [S ''No continuous search is running''] s
      else
        let s1 = (case this_searchInterval s of
                    Some h \<Rightarrow> (clearInterval h s)\<lparr>this_searchInterval := None\<rparr>
                  | None \<Rightarrow> s)
        in log_search Info [S ''Continuous search stopped''] (s1\<lparr>isSearching := False\<rparr>))"

definition startContinuousSearch :: "search_automation \<Rightarrow> search_automation" where
  "startContinuousSearch s =
     (if isSearching s then log_search Warn [S ''Continuous search is already running''] s
      else
        let s1 = log_search Info
                   [S ''Starting continuous search (interval: '', N (searchInterval (config s)), S ''ms)'']
                   (s\<lparr>isSearching := True\<rparr>);
            (h, s2) = setInterval s1
        in s2\<lparr>this_searchInterval := Some h\<rparr>)"

text \<open>
  What one search attempt observes on the page after clicking the search button:
  an exception anywhere in the attempt (caught by the attempt itself), an error banner
  of the site, appointments listed, or none.
\<close>

datatype search_result = SearchThrew message | ErrorMessage "message option" | AppointmentFound | NoAppointment

definition notifyAppointmentFound :: "search_automation \<Rightarrow> search_automation" where
  "notifyAppointmentFound s =
     (let s1 = (if playSoundOnFound (config s) then s\<lparr>sounds := Suc (sounds s)\<rparr> else s)
      in s1\<lparr>banners := Suc (banners s1)\<rparr>)"

text \<open>
  \<^verbatim>\<open>searchForAppointment\<close> is asynchronous. Its first part runs at the call: the counter is
  incremented and the attempt is logged. Its second part runs when the waits of the
  attempt have settled, with what the page then shows.
\<close>

definition searchForAppointment_begin :: "search_automation \<Rightarrow> search_automation" where
  "searchForAppointment_begin s =
     (let s1 = s\<lparr>searchAttempts := Suc (searchAttempts s), in_flight := Suc (in_flight s)\<rparr>
      in log_search Info
           [S ''Searching for appointments (attempt '', N (int (searchAttempts s1)), S '')...''] s1)"

definition searchForAppointment_settle :: "search_result \<Rightarrow> search_automation \<Rightarrow> search_automation \<times> bool" where
  "searchForAppointment_settle r s =
     (let s0 = s\<lparr>in_flight := in_flight s - 1\<rparr> in
      case r of
        SearchThrew m \<Rightarrow> (log_search Error (S ''Error during search: '' # m) s0, False)
      | ErrorMessage m \<Rightarrow>
          (log_search Error
             (S ''Error during search: '' # (case m of Some t \<Rightarrow> t | None \<Rightarrow> [S ''Unknown error''])) s0,
           False)
      | AppointmentFound \<Rightarrow>
          (let s1 = notifyAppointmentFound (log_search Success [S ''Appointment found!''] s0)
           in (if stopOnFound (config s1) then stopContinuousSearch s1 else s1, True))
      | NoAppointment \<Rightarrow>
          (log_search Info [S ''No appointments available. Will try again later.''] s0, False))"

text \<open>The callback given to \<^verbatim>\<open>window.setInterval\<close> by \<^verbatim>\<open>startContinuousSearch\<close>, up to its await.\<close>

definition interval_callback :: "search_automation \<Rightarrow> search_automation" where
  "interval_callback s =
     (if maxSearchAttempts (config s) > 0 \<and> int (searchAttempts s) \<ge> maxSearchAttempts (config s)
      then stopContinuousSearch
             (log_search Info
                [S ''Reached maximum search attempts ('', N (maxSearchAttempts (config s)), S '')''] s)
      else searchForAppointment_begin s)"

text \<open>
  \<^verbatim>\<open>start()\<close>: what the page offers to one call is given by \<open>start_env\<close>: whether the URL is
  the search page, whether filling the search parameters throws, and what the initial
  search observes. The call is taken as one step (no timer callback of the instance
  runs during its waits); the two waits for the page before the URL test always settle
  and are left out, as are the console lines written inside \<^verbatim>\<open>fillSearchParameters\<close>.
\<close>

record start_env =
  on_search_page :: bool
  fill_throws :: "message option"
  initial_result :: search_result

definition start :: "start_env \<Rightarrow> search_automation \<Rightarrow> search_automation \<times> bool" where
  "start env s =
     (let s1 = log_search Info [S ''Starting appointment search automation''] s in
      if \<not> on_search_page env then
        (log_search Error
           [S ''Not on the search page. Please complete the personal information step first.''] s1,
         False)
      else
        let s2 = log_search Info [S ''On the search page. Filling search parameters...''] s1 in
        case fill_throws env of
          Some m \<Rightarrow> (log_search Error (S ''Appointment search automation failed: '' # m) s2, False)
        | None \<Rightarrow>
            let s3 = fst (searchForAppointment_settle (initial_result env) (searchForAppointment_begin s2))
            in (if searchInterval (config s3) > 0 then startContinuousSearch s3 else s3, True))"

text \<open>\<^verbatim>\<open>startAppointmentSearchAutomation(continuous)\<close>: a new instance, started.\<close>

definition startAppointmentSearchAutomation ::
  "searchBehavior \<Rightarrow> bool \<Rightarrow> start_env \<Rightarrow> search_automation \<times> bool" where
  "startAppointmentSearchAutomation cfg continuous env =
     (let (s, result) = start env (new_AppointmentSearchAutomation cfg)
      in (if result \<and> continuous then startContinuousSearch s else s, result))"

definition getStatus :: "search_automation \<Rightarrow> bool \<times> nat \<times> int" where
  "getStatus s = (isSearching s, searchAttempts s, maxSearchAttempts (config s))"

text \<open>
  What can happen to an instance, one event at a time: a call of a public method, a
  timer of the page coming due (a cleared timer never fires: the event does nothing),
  an attempt in flight settling, or the configuration section being replaced
  (the instance holds a reference to the module's configuration object).
\<close>

datatype loop_event =
    CallStart start_env
  | CallStartContinuousSearch
  | CallStopContinuousSearch
  | CallGetStatus
  | TimerFires nat
  | AttemptSettles search_result
  | ConfigReplaced searchBehavior

fun loop_step :: "loop_event \<Rightarrow> search_automation \<Rightarrow> search_automation" where
  "loop_step (CallStart env) s = fst (start env s)"
| "loop_step CallStartContinuousSearch s = startContinuousSearch s"
| "loop_step CallStopContinuousSearch s = stopContinuousSearch s"
| "loop_step CallGetStatus s = s"
| "loop_step (TimerFires h) s = (if h \<in> set (timers s) then interval_callback s else s)"
| "loop_step (AttemptSettles r) s = (if in_flight s > 0 then fst (searchForAppointment_settle r s) else s)"
| "loop_step (ConfigReplaced cfg) s = s\<lparr>config := cfg\<rparr>"

fun loop_run :: "loop_event list \<Rightarrow> search_automation \<Rightarrow> search_automation" where
  "loop_run [] s = s"
| "loop_run (e # es) s = loop_run es (loop_step e s)"

subsection \<open>The loop's invariant\<close>

text \<open>
  The instance owns at most one timer: the active timers are exactly the handle kept in
  \<^verbatim>\<open>this.searchInterval\<close>, and the flag \<^verbatim>\<open>isSearching\<close> is set exactly when there is one.
\<close>

definition loop_inv :: "search_automation \<Rightarrow> bool" where
  "loop_inv s = (timers s = (case this_searchInterval s of None \<Rightarrow> [] | Some h \<Rightarrow> [h])
                 \<and> (isSearching s \<longleftrightarrow> this_searchInterval s \<noteq> None))"

lemmas loop_defs = log_search_def setInterval_def clearInterval_def stopContinuousSearch_def
  startContinuousSearch_def notifyAppointmentFound_def searchForAppointment_begin_def
  searchForAppointment_settle_def interval_callback_def start_def

lemma loop_inv_new: "loop_inv (new_AppointmentSearchAutomation cfg)"
  by (simp add: loop_inv_def new_AppointmentSearchAutomation_def)

lemma loop_inv_stop: "loop_inv s \<Longrightarrow> loop_inv (stopContinuousSearch s)"
  by (auto simp: loop_inv_def loop_defs split: option.splits)

lemma loop_inv_startc: "loop_inv s \<Longrightarrow> loop_inv (startContinuousSearch s)"
  by (auto simp: loop_inv_def loop_defs split: option.splits)

lemma loop_inv_begin: "loop_inv s \<Longrightarrow> loop_inv (searchForAppointment_begin s)"
  by (auto simp: loop_inv_def loop_defs Let_def split: option.splits)

lemma loop_inv_settle: "loop_inv s \<Longrightarrow> loop_inv (fst (searchForAppointment_settle r s))"
  by (cases r) (auto simp: loop_inv_def loop_defs Let_def split: option.splits)

lemma loop_inv_log: "loop_inv (log_search l m s) = loop_inv s"
  by (simp add: loop_inv_def log_search_def)

lemma loop_inv_callback: "loop_inv s \<Longrightarrow> loop_inv (interval_callback s)"
  unfolding interval_callback_def
  by (simp add: loop_inv_stop loop_inv_begin loop_inv_log)

lemma loop_inv_start: "loop_inv s \<Longrightarrow> loop_inv (fst (start env s))"
  unfolding start_def Let_def
  by (auto simp: loop_inv_log loop_inv_startc loop_inv_settle loop_inv_begin split: option.splits)

lemma loop_inv_step: "loop_inv s \<Longrightarrow> loop_inv (loop_step e s)"
proof (cases e)
  case (ConfigReplaced cfg)
  assume "loop_inv s"
  with ConfigReplaced show ?thesis by (simp add: loop_inv_def)
qed (simp_all add: loop_inv_stop loop_inv_startc loop_inv_callback loop_inv_start loop_inv_settle)

lemma loop_inv_run: "loop_inv s \<Longrightarrow> loop_inv (loop_run evs s)"
  by (induction evs arbitrary: s) (auto simp: loop_inv_step)

lemma loop_inv_reachable: "loop_inv (loop_run evs (new_AppointmentSearchAutomation cfg))"
  by (simp add: loop_inv_run loop_inv_new)

lemma loop_inv_timers: "loop_inv s \<Longrightarrow> length (timers s) \<le> 1"
  by (auto simp: loop_inv_def split: option.splits)

subsection \<open>Start and stop are idempotent\<close>

text \<open>
  Claim C7. Calling \<^verbatim>\<open>startContinuousSearch\<close> while the loop runs only appends a warning
  to the console: no field changes and no timer is created. Calling
  \<^verbatim>\<open>stopContinuousSearch\<close> while no loop runs likewise only appends a warning. Whatever is
  done to an instance after its construction, at most one interval timer of it is active.
\<close>

theorem start_while_running_and_stop_while_idle_only_warn:
  "(isSearching s \<longrightarrow>
      startContinuousSearch s =
        s\<lparr>console := console s @
             [logger ''AppointmentSearch'' Warn [S ''Continuous search is already running'']]\<rparr>)
   \<and> (\<not> isSearching s \<longrightarrow>
      stopContinuousSearch s =
        s\<lparr>console := console s @
             [logger ''AppointmentSearch'' Warn [S ''No continuous search is running'']]\<rparr>)
   \<and> length (timers (loop_run evs (new_AppointmentSearchAutomation cfg))) \<le> 1"
  using loop_inv_timers [OF loop_inv_reachable, of evs cfg]
  by (simp add: startContinuousSearch_def stopContinuousSearch_def log_search_def)

definition example_behavior :: "int \<Rightarrow> searchBehavior" where
  "example_behavior cap =
     \<lparr>searchInterval = 30000, maxSearchAttempts = cap, playSoundOnFound = True, stopOnFound = False\<rparr>"

theorem start_while_running_and_stop_while_idle_only_warn_witness:
  "isSearching (startContinuousSearch (new_AppointmentSearchAutomation (example_behavior 0)))
   \<and> timers (startContinuousSearch (startContinuousSearch
               (new_AppointmentSearchAutomation (example_behavior 0)))) = [1]
   \<and> \<not> isSearching (new_AppointmentSearchAutomation (example_behavior 0))
   \<and> timers (stopContinuousSearch (new_AppointmentSearchAutomation (example_behavior 0))) = []
   \<and> this_searchInterval (stopContinuousSearch (new_AppointmentSearchAutomation (example_behavior 0)))
       = None"
  using start_while_running_and_stop_while_idle_only_warn
          [of "startContinuousSearch (new_AppointmentSearchAutomation (example_behavior 0))"
              "[]" "example_behavior 0"]
        start_while_running_and_stop_while_idle_only_warn
          [of "new_AppointmentSearchAutomation (example_behavior 0)" "[]" "example_behavior 0"]
  by (simp add: loop_defs new_AppointmentSearchAutomation_def example_behavior_def)

subsection \<open>The attempt counter\<close>

lemma searchAttempts_log [simp]: "searchAttempts (log_search l m s) = searchAttempts s"
  by (simp add: log_search_def)

lemma searchAttempts_stop [simp]: "searchAttempts (stopContinuousSearch s) = searchAttempts s"
  by (simp add: stopContinuousSearch_def clearInterval_def Let_def split: option.splits)

lemma searchAttempts_startc [simp]: "searchAttempts (startContinuousSearch s) = searchAttempts s"
  by (simp add: startContinuousSearch_def setInterval_def Let_def)

lemma searchAttempts_begin [simp]:
  "searchAttempts (searchForAppointment_begin s) = Suc (searchAttempts s)"
  by (simp add: searchForAppointment_begin_def Let_def)

lemma searchAttempts_settle [simp]:
  "searchAttempts (fst (searchForAppointment_settle r s)) = searchAttempts s"
  by (cases r) (simp_all add: searchForAppointment_settle_def notifyAppointmentFound_def Let_def)

lemma searchAttempts_callback:
  "searchAttempts (interval_callback s) =
     (if maxSearchAttempts (config s) > 0 \<and> int (searchAttempts s) \<ge> maxSearchAttempts (config s)
      then searchAttempts s else Suc (searchAttempts s))"
  by (simp add: interval_callback_def)

lemma searchAttempts_start:
  "searchAttempts (fst (start env s)) =
     (if on_search_page env \<and> fill_throws env = None then Suc (searchAttempts s) else searchAttempts s)"
  by (simp add: start_def Let_def split: option.splits)

lemma searchAttempts_step:
  "searchAttempts (loop_step e s) = searchAttempts s
   \<or> searchAttempts (loop_step e s) = Suc (searchAttempts s)"
  by (cases e) (simp_all add: searchAttempts_callback searchAttempts_start)

lemma searchAttempts_run: "searchAttempts s \<le> searchAttempts (loop_run evs s)"
proof (induction evs arbitrary: s)
  case Nil
  show ?case by simp
next
  case (Cons e evs)
  have "searchAttempts s \<le> searchAttempts (loop_step e s)"
    using searchAttempts_step [of e s] by auto
  also have "\<dots> \<le> searchAttempts (loop_run evs (loop_step e s))"
    by (rule Cons.IH)
  finally show ?case by simp
qed

lemma restart_at_cap:
  assumes inv: "loop_inv s" and idle: "\<not> isSearching s"
    and cap: "0 < maxSearchAttempts (config s)" "maxSearchAttempts (config s) \<le> int (searchAttempts s)"
  shows "isSearching (startContinuousSearch s)
       \<and> this_searchInterval (startContinuousSearch s) = Some (next_timer s)
       \<and> timers (startContinuousSearch s) = [next_timer s]
       \<and> \<not> isSearching (loop_step (TimerFires (next_timer s)) (startContinuousSearch s))
       \<and> timers (loop_step (TimerFires (next_timer s)) (startContinuousSearch s)) = []
       \<and> searchAttempts (loop_step (TimerFires (next_timer s)) (startContinuousSearch s))
           = searchAttempts s
       \<and> in_flight (loop_step (TimerFires (next_timer s)) (startContinuousSearch s)) = in_flight s"
proof -
  from inv idle have t: "timers s = []" "this_searchInterval s = None"
    by (auto simp: loop_inv_def split: option.splits)
  with idle cap show ?thesis
    by (simp add: loop_defs Let_def)
qed

text \<open>
  Claim C10. The attempt counter never decreases, whatever happens to the instance; every
  event adds nothing or one to it, and the beginning of a search attempt adds exactly
  one; stopping and starting the loop leave it as it is. So, on an instance that is idle
  with a positive cap already reached, a loop started again is stopped by its first tick,
  which clears the timer and begins no attempt.
\<close>

theorem searchAttempts_monotone_never_reset:
  "searchAttempts s \<le> searchAttempts (loop_run evs s)
   \<and> (searchAttempts (loop_step e s) = searchAttempts s
        \<or> searchAttempts (loop_step e s) = Suc (searchAttempts s))
   \<and> searchAttempts (searchForAppointment_begin s) = Suc (searchAttempts s)
   \<and> searchAttempts (startContinuousSearch (stopContinuousSearch s)) = searchAttempts s
   \<and> (let r = loop_run evs (new_AppointmentSearchAutomation cfg);
           r1 = startContinuousSearch r;
           r2 = loop_step (TimerFires (next_timer r)) r1
       in \<not> isSearching r \<and> 0 < maxSearchAttempts (config r)
          \<and> maxSearchAttempts (config r) \<le> int (searchAttempts r)
          \<longrightarrow> isSearching r1 \<and> timers r1 = [next_timer r]
              \<and> \<not> isSearching r2 \<and> timers r2 = []
              \<and> searchAttempts r2 = searchAttempts r \<and> in_flight r2 = in_flight r)"
proof (intro conjI)
  show "searchAttempts s \<le> searchAttempts (loop_run evs s)"
    by (rule searchAttempts_run)
  show "searchAttempts (loop_step e s) = searchAttempts s
        \<or> searchAttempts (loop_step e s) = Suc (searchAttempts s)"
    by (rule searchAttempts_step)
  show "searchAttempts (searchForAppointment_begin s) = Suc (searchAttempts s)"
    by simp
  show "searchAttempts (startContinuousSearch (stopContinuousSearch s)) = searchAttempts s"
    by simp
  show "let r = loop_run evs (new_AppointmentSearchAutomation cfg);
            r1 = startContinuousSearch r;
            r2 = loop_step (TimerFires (next_timer r)) r1
        in \<not> isSearching r \<and> 0 < maxSearchAttempts (config r)
           \<and> maxSearchAttempts (config r) \<le> int (searchAttempts r)
           \<longrightarrow> isSearching r1 \<and> timers r1 = [next_timer r]
               \<and> \<not> isSearching r2 \<and> timers r2 = []
               \<and> searchAttempts r2 = searchAttempts r \<and> in_flight r2 = in_flight r"
    unfolding Let_def
    using restart_at_cap [OF loop_inv_reachable, of evs cfg] by blast
qed

text \<open>
  An instance that made three attempts under a cap of three and was stopped: started
  again, its first tick stops it, and the counter is still three.
\<close>

theorem searchAttempts_monotone_never_reset_witness:
  "(let r = loop_run
              [CallStartContinuousSearch, TimerFires 1, TimerFires 1, TimerFires 1,
               CallStopContinuousSearch]
              (new_AppointmentSearchAutomation (example_behavior 3));
        r1 = startContinuousSearch r;
        r2 = loop_step (TimerFires (next_timer r)) r1
    in searchAttempts r = 3 \<and> \<not> isSearching r \<and> maxSearchAttempts (config r) = 3
       \<and> next_timer r = 2 \<and> isSearching r1 \<and> timers r1 = [2]
       \<and> \<not> isSearching r2 \<and> timers r2 = [] \<and> searchAttempts r2 = 3 \<and> in_flight r2 = 3)"
  using searchAttempts_monotone_never_reset
          [of "new_AppointmentSearchAutomation (example_behavior 3)"
              "[CallStartContinuousSearch, TimerFires 1, TimerFires 1, TimerFires 1,
                CallStopContinuousSearch]"
              CallGetStatus "example_behavior 3"]
  by (simp add: loop_defs new_AppointmentSearchAutomation_def example_behavior_def Let_def)

subsection \<open>The cap on attempts\<close>

text \<open>
  A run of the loop in which every attempt reports no appointment: the timer \<open>h\<close> comes
  due some number of times, attempts in flight settle with \<open>NoAppointment\<close>.
\<close>

definition quiet_events :: "nat \<Rightarrow> loop_event list \<Rightarrow> bool" where
  "quiet_events h evs = list_all (\<lambda>e. e = TimerFires h \<or> e = AttemptSettles NoAppointment) evs"

definition ticks :: "nat \<Rightarrow> loop_event list \<Rightarrow> nat" where
  "ticks h evs = length (filter (\<lambda>e. e = TimerFires h) evs)"

definition loop_stopped :: "search_automation \<Rightarrow> bool" where
  "loop_stopped s = (\<not> isSearching s \<and> this_searchInterval s = None \<and> timers s = [])"

definition loop_running :: "nat \<Rightarrow> search_automation \<Rightarrow> bool" where
  "loop_running h s = (isSearching s \<and> this_searchInterval s = Some h \<and> timers s = [h])"

lemma stopped_step:
  "loop_stopped s \<Longrightarrow> e = TimerFires h \<or> e = AttemptSettles NoAppointment \<Longrightarrow>
   loop_stopped (loop_step e s) \<and> searchAttempts (loop_step e s) = searchAttempts s
   \<and> config (loop_step e s) = config s"
  by (auto simp: loop_stopped_def loop_defs Let_def split: if_splits)

lemma stopped_run:
  "loop_stopped s \<Longrightarrow> quiet_events h evs \<Longrightarrow>
   loop_stopped (loop_run evs s) \<and> searchAttempts (loop_run evs s) = searchAttempts s"
proof (induction evs arbitrary: s)
  case Nil
  then show ?case by simp
next
  case (Cons e evs)
  define s' where "s' = loop_step e s"
  have run: "loop_run (e # evs) s = loop_run evs s'"
    by (simp add: s'_def)
  from Cons.prems have e: "e = TimerFires h \<or> e = AttemptSettles NoAppointment"
    and q: "quiet_events h evs"
    by (simp_all add: quiet_events_def)
  from stopped_step [OF Cons.prems(1) e]
  have s': "loop_stopped s'" "searchAttempts s' = searchAttempts s"
    by (simp_all add: s'_def)
  from Cons.IH [OF s'(1) q] s'(2) show ?case
    unfolding run by simp
qed

lemma running_settle:
  "loop_running h s \<Longrightarrow>
   loop_running h (loop_step (AttemptSettles NoAppointment) s)
   \<and> searchAttempts (loop_step (AttemptSettles NoAppointment) s) = searchAttempts s
   \<and> config (loop_step (AttemptSettles NoAppointment) s) = config s"
  by (auto simp: loop_running_def loop_defs Let_def)

lemma running_tick_below_cap:
  "loop_running h s \<Longrightarrow> maxSearchAttempts (config s) = int m \<Longrightarrow> searchAttempts s < m \<Longrightarrow>
   loop_running h (loop_step (TimerFires h) s)
   \<and> searchAttempts (loop_step (TimerFires h) s) = Suc (searchAttempts s)
   \<and> config (loop_step (TimerFires h) s) = config s"
  by (auto simp: loop_running_def loop_defs Let_def)

lemma running_tick_at_cap:
  "loop_running h s \<Longrightarrow> maxSearchAttempts (config s) = int m \<Longrightarrow> 0 < m \<Longrightarrow>
   m \<le> searchAttempts s \<Longrightarrow>
   loop_stopped (loop_step (TimerFires h) s)
   \<and> searchAttempts (loop_step (TimerFires h) s) = searchAttempts s"
  by (auto simp: loop_running_def loop_stopped_def loop_defs Let_def)

lemma running_run:
  "loop_running h s \<Longrightarrow> maxSearchAttempts (config s) = int m \<Longrightarrow> 0 < m \<Longrightarrow>
   searchAttempts s \<le> m \<Longrightarrow> quiet_events h evs \<Longrightarrow>
   (if ticks h evs \<le> m - searchAttempts s
    then loop_running h (loop_run evs s)
         \<and> searchAttempts (loop_run evs s) = searchAttempts s + ticks h evs
    else loop_stopped (loop_run evs s) \<and> searchAttempts (loop_run evs s) = m)"
proof (induction evs arbitrary: s)
  case Nil
  then show ?case by (simp add: ticks_def)
next
  case (Cons e evs)
  define s' where "s' = loop_step e s"
  have run: "loop_run (e # evs) s = loop_run evs s'"
    by (simp add: s'_def)
  from Cons.prems have e: "e = TimerFires h \<or> e = AttemptSettles NoAppointment"
    and q: "quiet_events h evs"
    by (simp_all add: quiet_events_def)
  from e show ?case
  proof
    assume t: "e = TimerFires h"
    then have tk: "ticks h (e # evs) = Suc (ticks h evs)"
      by (simp add: ticks_def)
    show ?thesis
    proof (cases "searchAttempts s < m")
      case True
      from running_tick_below_cap [OF Cons.prems(1,2) True]
      have r: "loop_running h s'" "searchAttempts s' = Suc (searchAttempts s)" "config s' = config s"
        by (simp_all add: s'_def t)
      have "maxSearchAttempts (config s') = int m"
        using r Cons.prems(2) by simp
      moreover have "searchAttempts s' \<le> m"
        using r True by simp
      ultimately have
        "if ticks h evs \<le> m - searchAttempts s'
         then loop_running h (loop_run evs s')
              \<and> searchAttempts (loop_run evs s') = searchAttempts s' + ticks h evs
         else loop_stopped (loop_run evs s') \<and> searchAttempts (loop_run evs s') = m"
        using Cons.IH [OF r(1) _ Cons.prems(3) _ q] by blast
      with r(2) True show ?thesis
        unfolding run tk by (auto split: if_splits)
    next
      case False
      with Cons.prems(4) have eq: "searchAttempts s = m" by simp
      then have "m \<le> searchAttempts s" by simp
      from running_tick_at_cap [OF Cons.prems(1,2,3) this]
      have r: "loop_stopped s'" "searchAttempts s' = searchAttempts s"
        by (simp_all add: s'_def t)
      from stopped_run [OF r(1) q] r(2) eq show ?thesis
        unfolding run tk by simp
    qed
  next
    assume t: "e = AttemptSettles NoAppointment"
    then have tk: "ticks h (e # evs) = ticks h evs"
      by (simp add: ticks_def)
    from running_settle [OF Cons.prems(1)]
    have r: "loop_running h s'" "searchAttempts s' = searchAttempts s" "config s' = config s"
      by (simp_all add: s'_def t)
    have "maxSearchAttempts (config s') = int m"
      using r Cons.prems(2) by simp
    moreover have "searchAttempts s' \<le> m"
      using r Cons.prems(4) by simp
    ultimately have
      "if ticks h evs \<le> m - searchAttempts s'
       then loop_running h (loop_run evs s')
            \<and> searchAttempts (loop_run evs s') = searchAttempts s' + ticks h evs
       else loop_stopped (loop_run evs s') \<and> searchAttempts (loop_run evs s') = m"
      using Cons.IH [OF r(1) _ Cons.prems(3) _ q] by blast
    with r(2) show ?thesis
      unfolding run tk by simp
  qed
qed

lemma start_begins_loop_with_one_attempt:
  assumes "on_search_page env" "fill_throws env = None" "0 < searchInterval cfg"
  shows "loop_running 1 (fst (start env (new_AppointmentSearchAutomation cfg)))
       \<and> searchAttempts (fst (start env (new_AppointmentSearchAutomation cfg))) = 1
       \<and> config (fst (start env (new_AppointmentSearchAutomation cfg))) = cfg"
proof -
  define s2 where "s2 = searchForAppointment_begin (log_search Info [S ''On the search page. Filling search parameters...'']
      (log_search Info [S ''Starting appointment search automation''] (new_AppointmentSearchAutomation cfg)))"
  have s2: "\<not> isSearching s2" "timers s2 = []" "this_searchInterval s2 = None" "searchAttempts s2 = 1"
     "config s2 = cfg" "next_timer s2 = 1"
    by (simp_all add: s2_def log_search_def searchForAppointment_begin_def new_AppointmentSearchAutomation_def Let_def)
  define s3 where "s3 = fst (searchForAppointment_settle (initial_result env) s2)"
  have s3: "\<not> isSearching s3" "timers s3 = []" "this_searchInterval s3 = None" "searchAttempts s3 = 1"
     "config s3 = cfg" "next_timer s3 = 1"
    using s2 unfolding s3_def
    by (cases "initial_result env"; simp add: searchForAppointment_settle_def log_search_def
        notifyAppointmentFound_def stopContinuousSearch_def Let_def)+
  have st: "fst (start env (new_AppointmentSearchAutomation cfg)) = startContinuousSearch s3"
    using assms s3 by (simp add: start_def Let_def s3_def s2_def)
  show ?thesis
    unfolding st using s3
    by (simp add: loop_running_def startContinuousSearch_def setInterval_def log_search_def Let_def)
qed

lemma startAppointmentSearchAutomation_begins_loop_with_one_attempt:
  assumes "on_search_page env" "fill_throws env = None"
  shows "loop_running 1 (fst (startAppointmentSearchAutomation cfg True env))
       \<and> searchAttempts (fst (startAppointmentSearchAutomation cfg True env)) = 1"
proof (cases "0 < searchInterval cfg")
  case True
  from start_begins_loop_with_one_attempt [OF assms True]
  show ?thesis
    using assms
    by (simp add: startAppointmentSearchAutomation_def split_beta start_def Let_def
        loop_running_def startContinuousSearch_def log_search_def)
next
  case False
  define s2 where "s2 = searchForAppointment_begin
      (log_search Info [S ''On the search page. Filling search parameters...'']
        (log_search Info [S ''Starting appointment search automation'']
          (new_AppointmentSearchAutomation cfg)))"
  have s2: "\<not> isSearching s2" "timers s2 = []" "this_searchInterval s2 = None"
    "searchAttempts s2 = 1" "config s2 = cfg" "next_timer s2 = 1"
    by (simp_all add: s2_def log_search_def searchForAppointment_begin_def
        new_AppointmentSearchAutomation_def Let_def)
  define s3 where "s3 = fst (searchForAppointment_settle (initial_result env) s2)"
  have s3: "\<not> isSearching s3" "timers s3 = []" "this_searchInterval s3 = None"
    "searchAttempts s3 = 1" "config s3 = cfg" "next_timer s3 = 1"
    using s2 unfolding s3_def
    by (cases "initial_result env"; simp add: searchForAppointment_settle_def log_search_def
        notifyAppointmentFound_def stopContinuousSearch_def Let_def)+
  have "start env (new_AppointmentSearchAutomation cfg) = (s3, True)"
    using assms s3 False by (simp add: start_def Let_def s3_def s2_def)
  then have "fst (startAppointmentSearchAutomation cfg True env) = startContinuousSearch s3"
    by (simp add: startAppointmentSearchAutomation_def)
  then show ?thesis
    using s3
    by (simp add: loop_running_def startContinuousSearch_def setInterval_def log_search_def Let_def)
qed

text \<open>
  Claim C8, as the code has it. A tick stops the loop when the attempts counted so far
  have reached the cap, and begins an attempt otherwise. So a running loop with cap \<open>m\<close>
  that has \<open>a \<le> m\<close> attempts counted begins one attempt at each of its next \<open>m - a\<close> ticks
  and is stopped, its timer cleared, by tick \<open>m - a + 1\<close>; from then on the state is stopped
  with \<open>m\<close> attempts, whatever further events arrive (a cleared timer does not fire).
  \<^verbatim>\<open>start()\<close> makes the first attempt itself before it starts the loop, so that with a cap
  of 3 the loop it starts is stopped by its 3rd tick; a loop started on an instance that
  has made no attempt is stopped by its 4th.
\<close>

theorem loop_stops_at_first_tick_after_cap:
  "(loop_running h s \<and> maxSearchAttempts (config s) = int m \<and> 0 < m \<and> searchAttempts s \<le> m
     \<and> quiet_events h evs
    \<longrightarrow> (if ticks h evs \<le> m - searchAttempts s
         then loop_running h (loop_run evs s)
              \<and> searchAttempts (loop_run evs s) = searchAttempts s + ticks h evs
         else loop_stopped (loop_run evs s) \<and> searchAttempts (loop_run evs s) = m))
   \<and> (on_search_page env \<and> fill_throws env = None \<and> 0 < searchInterval cfg
        \<and> maxSearchAttempts cfg = 3 \<and> quiet_events 1 evs
    \<longrightarrow> (let s0 = fst (start env (new_AppointmentSearchAutomation cfg)) in
         loop_running 1 s0 \<and> searchAttempts s0 = 1
         \<and> (if ticks 1 evs \<le> 2
             then loop_running 1 (loop_run evs s0) \<and> searchAttempts (loop_run evs s0) = 1 + ticks 1 evs
             else loop_stopped (loop_run evs s0) \<and> searchAttempts (loop_run evs s0) = 3)))"
proof (intro conjI impI)
  assume "loop_running h s \<and> maxSearchAttempts (config s) = int m \<and> 0 < m
          \<and> searchAttempts s \<le> m \<and> quiet_events h evs"
  then show "if ticks h evs \<le> m - searchAttempts s
             then loop_running h (loop_run evs s)
                  \<and> searchAttempts (loop_run evs s) = searchAttempts s + ticks h evs
             else loop_stopped (loop_run evs s) \<and> searchAttempts (loop_run evs s) = m"
    using running_run [of h s m evs] by blast
next
  assume a: "on_search_page env \<and> fill_throws env = None \<and> 0 < searchInterval cfg
             \<and> maxSearchAttempts cfg = 3 \<and> quiet_events 1 evs"
  define s0 where "s0 = fst (start env (new_AppointmentSearchAutomation cfg))"
  from a start_begins_loop_with_one_attempt [of env cfg]
  have s0: "loop_running 1 s0" "searchAttempts s0 = 1" "config s0 = cfg"
    by (simp_all add: s0_def)
  have "maxSearchAttempts (config s0) = int 3" "searchAttempts s0 \<le> 3"
    using a s0 by simp_all
  from running_run [OF s0(1) this(1) _ this(2), of evs] a s0(2)
  have "if ticks 1 evs \<le> 2
        then loop_running 1 (loop_run evs s0) \<and> searchAttempts (loop_run evs s0) = 1 + ticks 1 evs
        else loop_stopped (loop_run evs s0) \<and> searchAttempts (loop_run evs s0) = 3"
    by (auto split: if_splits)
  with s0 show "let s0 = fst (start env (new_AppointmentSearchAutomation cfg)) in
         loop_running 1 s0 \<and> searchAttempts s0 = 1
         \<and> (if ticks 1 evs \<le> 2
             then loop_running 1 (loop_run evs s0) \<and> searchAttempts (loop_run evs s0) = 1 + ticks 1 evs
             else loop_stopped (loop_run evs s0) \<and> searchAttempts (loop_run evs s0) = 3)"
    unfolding Let_def s0_def by simp
qed

definition search_page_env :: start_env where
  "search_page_env = \<lparr>on_search_page = True, fill_throws = None, initial_result = NoAppointment\<rparr>"

text \<open>
  Through \<^verbatim>\<open>start()\<close> with a cap of 3: the loop starts with one attempt counted and
  is stopped by its third tick, with three attempts made.
\<close>

theorem loop_stops_at_first_tick_after_cap_witness:
  "loop_running 1 (fst (start search_page_env (new_AppointmentSearchAutomation (example_behavior 3))))
   \<and> searchAttempts (fst (start search_page_env (new_AppointmentSearchAutomation (example_behavior 3)))) = 1
   \<and> quiet_events 1
        [TimerFires 1, AttemptSettles NoAppointment, TimerFires 1, AttemptSettles NoAppointment,
         TimerFires 1]
   \<and> ticks 1
        [TimerFires 1, AttemptSettles NoAppointment, TimerFires 1, AttemptSettles NoAppointment,
         TimerFires 1] = 3
   \<and> loop_stopped
        (loop_run
           [TimerFires 1, AttemptSettles NoAppointment, TimerFires 1, AttemptSettles NoAppointment,
            TimerFires 1]
           (fst (start search_page_env (new_AppointmentSearchAutomation (example_behavior 3)))))
   \<and> searchAttempts
        (loop_run
           [TimerFires 1, AttemptSettles NoAppointment, TimerFires 1, AttemptSettles NoAppointment,
            TimerFires 1]
           (fst (start search_page_env (new_AppointmentSearchAutomation (example_behavior 3))))) = 3"
proof -
  define s0 where
    "s0 = fst (start search_page_env (new_AppointmentSearchAutomation (example_behavior 3)))"
  define evs where
    "evs = [TimerFires 1, AttemptSettles NoAppointment, TimerFires 1, AttemptSettles NoAppointment,
            TimerFires 1]"
  have env: "on_search_page search_page_env" "fill_throws search_page_env = None"
    "0 < searchInterval (example_behavior 3)" "maxSearchAttempts (example_behavior 3) = 3"
    by (simp_all add: search_page_env_def example_behavior_def)
  have q: "quiet_events 1 evs" and t: "ticks 1 evs = 3"
    by (simp_all add: evs_def quiet_events_def ticks_def)
  from loop_stops_at_first_tick_after_cap [of 1 s0 3 evs search_page_env "example_behavior 3"]
    env q t
  show ?thesis
    unfolding s0_def [symmetric] evs_def [symmetric] by (simp add: Let_def s0_def)
qed

text \<open>
  The loop started directly on a new instance, cap 3, every attempt reporting no
  appointment: after the third tick the loop still runs and its timer is active; the
  fourth tick fires and is the one that stops it.
\<close>

theorem third_tick_does_not_stop_fresh_loop:
  "isSearching
     (loop_run
            [CallStartContinuousSearch,
             TimerFires 1, AttemptSettles NoAppointment,
             TimerFires 1, AttemptSettles NoAppointment,
             TimerFires 1, AttemptSettles NoAppointment]
            (new_AppointmentSearchAutomation (example_behavior 3)))
   \<and> timers
       (loop_run
              [CallStartContinuousSearch,
               TimerFires 1, AttemptSettles NoAppointment,
               TimerFires 1, AttemptSettles NoAppointment,
               TimerFires 1, AttemptSettles NoAppointment]
              (new_AppointmentSearchAutomation (example_behavior 3))) = [1]
   \<and> this_searchInterval
       (loop_run
              [CallStartContinuousSearch,
               TimerFires 1, AttemptSettles NoAppointment,
               TimerFires 1, AttemptSettles NoAppointment,
               TimerFires 1, AttemptSettles NoAppointment]
              (new_AppointmentSearchAutomation (example_behavior 3))) = Some 1
   \<and> searchAttempts
       (loop_run
              [CallStartContinuousSearch,
               TimerFires 1, AttemptSettles NoAppointment,
               TimerFires 1, AttemptSettles NoAppointment,
               TimerFires 1, AttemptSettles NoAppointment]
              (new_AppointmentSearchAutomation (example_behavior 3))) = 3
   \<and> \<not> isSearching
         (loop_step (TimerFires 1)
            (loop_run
                   [CallStartContinuousSearch,
                    TimerFires 1, AttemptSettles NoAppointment,
                    TimerFires 1, AttemptSettles NoAppointment,
                    TimerFires 1, AttemptSettles NoAppointment]
                   (new_AppointmentSearchAutomation (example_behavior 3))))"
  by code_simp

section \<open>Step sequencer (content script, class AppointmentAutomation)\<close>

text \<open>
  A step is an asynchronous method acting on the page. Awaited on a world \<open>w\<close>, it
  resolves leaving a world, rejects with an error leaving a world (what it did before
  throwing stays done), or never settles.
\<close>

datatype 'p settled = Resolved 'p | Rejected js_error 'p | Pending_forever 'p

type_synonym 'p step = "'p \<Rightarrow> 'p settled"

record 'p appointment_automation =
  currentStep :: nat
  world :: 'p
  bot_console :: "log_entry list"

text \<open>The four methods the constructor puts into \<^verbatim>\<open>this.steps\<close>, in its order.\<close>

record 'p step_methods =
  fillPersonalInfo :: "'p step"
  clickContinue :: "'p step"
  fillSearchParameters :: "'p step"
  searchForAppointment :: "'p step"

definition steps :: "'p step_methods \<Rightarrow> 'p step list" where
  "steps m = [fillPersonalInfo m, clickContinue m, fillSearchParameters m, searchForAppointment m]"

definition new_AppointmentAutomation :: "'p \<Rightarrow> 'p appointment_automation" where
  "new_AppointmentAutomation w = \<lparr>currentStep = 0, world = w, bot_console = []\<rparr>"

definition log_bot :: "level \<Rightarrow> message \<Rightarrow> 'p appointment_automation \<Rightarrow> 'p appointment_automation" where
  "log_bot lvl msg a = a\<lparr>bot_console := bot_console a @ [logger ''AppointBot'' lvl msg]\<rparr>"

text \<open>
  \<^verbatim>\<open>for (this.currentStep = 0; this.currentStep < this.steps.length; this.currentStep++)
    { const step = this.steps[this.currentStep]; await step.call(this); }\<close>
  from the value \<open>i\<close> of \<^verbatim>\<open>this.currentStep\<close> on. The result is the value of
  \<^verbatim>\<open>this.currentStep\<close> when the loop is left and how it is left.
\<close>

function run_steps :: "'p step list \<Rightarrow> nat \<Rightarrow> 'p \<Rightarrow> nat \<times> 'p settled" where
  "run_steps ss i w =
     (if i < length ss then
        (case (ss ! i) w of
           Resolved w' \<Rightarrow> run_steps ss (Suc i) w'
         | Rejected e w' \<Rightarrow> (i, Rejected e w')
         | Pending_forever w' \<Rightarrow> (i, Pending_forever w'))
      else (i, Resolved w))"
  by pat_completeness auto
termination
  by (relation "measure (\<lambda>(ss, i, w). length ss - i)") auto

declare run_steps.simps [simp del]

text \<open>
  The two waits before the loop. \<^verbatim>\<open>waitForPageLoad\<close> resolves at once on a loaded document
  and otherwise with the load event, which may never come (\<open>None\<close>);
  \<^verbatim>\<open>waitForNetworkIdle\<close> always resolves. Neither rejects.
\<close>

record 'p waits =
  waitForPageLoad :: "'p \<Rightarrow> 'p option"
  waitForNetworkIdle :: "'p \<Rightarrow> 'p"

text \<open>
  \<^verbatim>\<open>AppointmentAutomation.start()\<close>. \<open>Settled a\<close>: the call has settled (it always
  resolves: the \<^verbatim>\<open>catch\<close> only logs), leaving the instance as \<open>a\<close>. \<open>Hangs a\<close>: a promise it
  awaits never settles, and the instance stays as \<open>a\<close>.
\<close>

datatype 'a async = Settled 'a | Hangs 'a

definition automation_start ::
  "'p waits \<Rightarrow> 'p step list \<Rightarrow> 'p appointment_automation \<Rightarrow> 'p appointment_automation async" where
  "automation_start ws ss a =
     (let a1 = log_bot Info [S ''Starting automation sequence''] a in
      case waitForPageLoad ws (world a1) of
        None \<Rightarrow> Hangs a1
      | Some w1 \<Rightarrow>
          (case run_steps ss 0 (waitForNetworkIdle ws w1) of
             (i, Resolved w') \<Rightarrow>
               Settled (log_bot Success [S ''Automation complete! Found available appointment.'']
                          (a1\<lparr>currentStep := i, world := w'\<rparr>))
           | (i, Rejected e w') \<Rightarrow>
               Settled (log_bot Error
                          [S ''Automation failed at step '', N (int i + 1), S '':'', error_piece e]
                          (a1\<lparr>currentStep := i, world := w'\<rparr>))
           | (i, Pending_forever w') \<Rightarrow> Hangs (a1\<lparr>currentStep := i, world := w'\<rparr>)))"

text \<open>
  The steps of a list resolving one after the other from a world: \<open>Some\<close> of the world
  the last one leaves, \<open>None\<close> when one of them does not resolve.
\<close>

fun resolve_all :: "'p step list \<Rightarrow> 'p \<Rightarrow> 'p option" where
  "resolve_all [] w = Some w"
| "resolve_all (f # fs) w = (case f w of Resolved w' \<Rightarrow> resolve_all fs w' | _ \<Rightarrow> None)"

subsection \<open>The controller's two phases (content script, class AutomationController)\<close>

text \<open>
  \<^verbatim>\<open>startFullAutomation\<close>: the personal-information phase, then the appointment-search
  phase. Each phase catches its own errors and resolves with a boolean.
\<close>

record controller =
  personalInfoRunning :: bool
  appointmentSearchRunning :: bool

record 'p phases =
  page_load :: "'p \<Rightarrow> 'p option"
  on_site :: "'p \<Rightarrow> bool"
  startPersonalInfoAutomation :: "'p \<Rightarrow> 'p \<times> bool"
  startAppointmentSearch :: "bool \<Rightarrow> 'p \<Rightarrow> 'p \<times> bool"

definition startFullAutomation ::
  "'p phases \<Rightarrow> controller \<times> 'p \<times> log_entry list \<Rightarrow>
   ((controller \<times> 'p \<times> log_entry list) \<times> bool) async" where
  "startFullAutomation ph st =
     (case st of (c, w, lg) \<Rightarrow>
        let lg1 = lg @ [logger ''CLIQ'' Info [S ''Starting full automation process'']] in
        case page_load ph w of
          None \<Rightarrow> Hangs ((c, w, lg1), False)
        | Some w0 \<Rightarrow>
            if \<not> on_site ph w0 then
              Settled
                ((c, w0, lg1 @ [logger ''CLIQ'' Error
                                  [S ''Not on the RVSQ website. Please navigate to the correct page.'']]),
                 False)
            else
              let (w1, personalInfoResult) = startPersonalInfoAutomation ph w0;
                  c1 = c\<lparr>personalInfoRunning := False\<rparr>
              in if \<not> personalInfoResult then
                   Settled
                     ((c1, w1, lg1 @ [logger ''CLIQ'' Error [S ''Personal information automation failed'']]),
                      False)
                 else
                   let (w2, appointmentSearchResult) = startAppointmentSearch ph True w1
                   in Settled ((c1\<lparr>appointmentSearchRunning := True\<rparr>, w2, lg1),
                               appointmentSearchResult))"

subsection \<open>The sequencer runs its steps in order and halts at the first failure\<close>

text \<open>The loop over indices, read along the list of the steps not yet run.\<close>

fun run_list :: "'p step list \<Rightarrow> nat \<Rightarrow> 'p \<Rightarrow> nat \<times> 'p settled" where
  "run_list [] i w = (i, Resolved w)"
| "run_list (f # fs) i w =
     (case f w of
        Resolved w' \<Rightarrow> run_list fs (Suc i) w'
      | Rejected e w' \<Rightarrow> (i, Rejected e w')
      | Pending_forever w' \<Rightarrow> (i, Pending_forever w'))"

lemma run_steps_run_list: "i \<le> length ss \<Longrightarrow> run_steps ss i w = run_list (drop i ss) i w"
proof (induction ss i w rule: run_steps.induct)
  case (1 ss i w)
  show ?case
  proof (cases "i < length ss")
    case True
    then have d: "drop i ss = ss ! i # drop (Suc i) ss"
      by (simp add: Cons_nth_drop_Suc)
    show ?thesis
    proof (cases "(ss ! i) w")
      case (Resolved w')
      with True 1 have "run_steps ss (Suc i) w' = run_list (drop (Suc i) ss) (Suc i) w'"
        by simp
      with True Resolved d show ?thesis
        by (simp add: run_steps.simps [of ss i w])
    next
      case (Rejected e w')
      with True d show ?thesis
        by (simp add: run_steps.simps [of ss i w])
    next
      case (Pending_forever w')
      with True d show ?thesis
        by (simp add: run_steps.simps [of ss i w])
    qed
  next
    case False
    then have "run_steps ss i w = (i, Resolved w)"
      by (simp add: run_steps.simps [of ss i w])
    with False 1 show ?thesis
      by simp
  qed
qed

lemma run_list_resolved_prefix:
  "resolve_all pre w0 = Some w \<Longrightarrow> run_list (pre @ rest) i w0 = run_list rest (i + length pre) w"
proof (induction pre arbitrary: i w0)
  case Nil
  then show ?case by simp
next
  case (Cons f pre)
  then show ?case
    by (cases "f w0") simp_all
qed

lemma run_steps_all_resolve:
  "resolve_all ss w0 = Some w \<Longrightarrow> run_steps ss 0 w0 = (length ss, Resolved w)"
  using run_list_resolved_prefix [of ss w0 w "[]" 0]
  by (simp add: run_steps_run_list)

lemma run_steps_first_rejection:
  "resolve_all pre w0 = Some w \<Longrightarrow> f w = Rejected e w' \<Longrightarrow>
   run_steps (pre @ f # post) 0 w0 = (length pre, Rejected e w')"
  using run_list_resolved_prefix [of pre w0 w "f # post" 0]
  by (simp add: run_steps_run_list)

lemma run_steps_first_pending:
  "resolve_all pre w0 = Some w \<Longrightarrow> f w = Pending_forever w' \<Longrightarrow>
   run_steps (pre @ f # post) 0 w0 = (length pre, Pending_forever w')"
  using run_list_resolved_prefix [of pre w0 w "f # post" 0]
  by (simp add: run_steps_run_list)

text \<open>
  Claim C6. Let the page load as \<open>wl\<close> and the network become idle. If the steps before
  some step \<open>f\<close> resolve one after the other, each on the world its predecessor left
  (\<open>resolve_all\<close>), and \<open>f\<close>, run on the world \<open>w\<close> they leave, rejects with \<open>e\<close> leaving
  \<open>w'\<close>, then the sequence settles with \<^verbatim>\<open>currentStep\<close> at the index of \<open>f\<close>, the world
  exactly \<open>w'\<close> (what the earlier steps and \<open>f\<close> did stays done, and \<open>f\<close> ran once), and
  one error entry naming the step and carrying \<open>e\<close>; the steps after \<open>f\<close> have no part in
  the result. If \<open>f\<close> never settles, no later step begins. If all steps resolve, the
  sequence reports success. The controller's second phase has no part in the result
  when its first phase fails.
\<close>

theorem sequencer_halts_at_first_failure:
  "(waitForPageLoad ws (world a) = Some wl \<and> resolve_all pre (waitForNetworkIdle ws wl) = Some w
      \<and> f w = Rejected e w'
    \<longrightarrow> automation_start ws (pre @ f # post) a =
          Settled \<lparr>currentStep = length pre, world = w',
                   bot_console = bot_console a @
                     [logger ''AppointBot'' Info [S ''Starting automation sequence''],
                      logger ''AppointBot'' Error
                        [S ''Automation failed at step '', N (int (length pre) + 1), S '':'',
                         error_piece e]]\<rparr>)
   \<and> (waitForPageLoad ws (world a) = Some wl \<and> resolve_all pre (waitForNetworkIdle ws wl) = Some w
      \<and> f w = Pending_forever w'
    \<longrightarrow> automation_start ws (pre @ f # post) a =
          Hangs \<lparr>currentStep = length pre, world = w',
                 bot_console = bot_console a @
                   [logger ''AppointBot'' Info [S ''Starting automation sequence'']]\<rparr>)
   \<and> (waitForPageLoad ws (world a) = Some wl \<and> resolve_all ss (waitForNetworkIdle ws wl) = Some w
    \<longrightarrow> automation_start ws ss a =
          Settled \<lparr>currentStep = length ss, world = w,
                   bot_console = bot_console a @
                     [logger ''AppointBot'' Info [S ''Starting automation sequence''],
                      logger ''AppointBot'' Success
                        [S ''Automation complete! Found available appointment.'']]\<rparr>)
   \<and> (page_load ph pw = Some pw0 \<and> on_site ph pw0 \<and> startPersonalInfoAutomation ph pw0 = (pw1, False)
    \<longrightarrow> startFullAutomation ph (c, pw, lg) =
          Settled ((c\<lparr>personalInfoRunning := False\<rparr>, pw1,
                    lg @ [logger ''CLIQ'' Info [S ''Starting full automation process''],
                          logger ''CLIQ'' Error [S ''Personal information automation failed'']]),
                   False))"
  by (auto simp: automation_start_def log_bot_def Let_def run_steps_first_rejection
      run_steps_first_pending run_steps_all_resolve startFullAutomation_def)

text \<open>
  Four steps that record their number in the world; the third throws after recording.
  The world shows steps 1, 2, 3 in this order and no step 4; \<^verbatim>\<open>currentStep\<close> is 2.
\<close>

definition traced_steps :: "nat list step_methods" where
  "traced_steps =
     \<lparr>fillPersonalInfo = (\<lambda>w. Resolved (w @ [1])),
      clickContinue = (\<lambda>w. Resolved (w @ [2])),
      fillSearchParameters = (\<lambda>w. Rejected (JsError ''Error'' [S ''URL did not change'']) (w @ [3])),
      searchForAppointment = (\<lambda>w. Resolved (w @ [4]))\<rparr>"

definition ready_waits :: "nat list waits" where
  "ready_waits = \<lparr>waitForPageLoad = Some, waitForNetworkIdle = (\<lambda>w. w)\<rparr>"

theorem sequencer_halts_at_first_failure_witness:
  "steps traced_steps
     = [fillPersonalInfo traced_steps, clickContinue traced_steps]
       @ fillSearchParameters traced_steps # [searchForAppointment traced_steps]
   \<and> waitForPageLoad ready_waits (world (new_AppointmentAutomation [])) = Some []
   \<and> resolve_all [fillPersonalInfo traced_steps, clickContinue traced_steps]
        (waitForNetworkIdle ready_waits []) = Some [1, 2]
   \<and> fillSearchParameters traced_steps [1, 2]
       = Rejected (JsError ''Error'' [S ''URL did not change'']) [1, 2, 3]
   \<and> automation_start ready_waits (steps traced_steps) (new_AppointmentAutomation []) =
       Settled \<lparr>currentStep = 2, world = [1, 2, 3],
                bot_console =
                  [logger ''AppointBot'' Info [S ''Starting automation sequence''],
                   logger ''AppointBot'' Error
                     [S ''Automation failed at step '', N 3, S '':'',
                      E ''Error'' [S ''URL did not change'']]]\<rparr>"
  using sequencer_halts_at_first_failure
          [where ws = ready_waits and a = "new_AppointmentAutomation []" and wl = "[]"
             and pre = "[fillPersonalInfo traced_steps, clickContinue traced_steps]"
             and w = "[1, 2]" and f = "fillSearchParameters traced_steps"
             and e = "JsError ''Error'' [S ''URL did not change'']" and w' = "[1, 2, 3]"
             and post = "[searchForAppointment traced_steps]", THEN conjunct1]
  by (simp add: steps_def traced_steps_def ready_waits_def new_AppointmentAutomation_def
      numeral_2_eq_2)

section \<open>Element finder (utils.ts, class ElementFinder)\<close>

subsection \<open>Strings\<close>

text \<open>
  Strings are taken as sequences of ASCII characters: \<^verbatim>\<open>toLowerCase\<close> maps \<^verbatim>\<open>A\<close>..\<^verbatim>\<open>Z\<close> to
  \<^verbatim>\<open>a\<close>..\<^verbatim>\<open>z\<close>, \<^verbatim>\<open>trim\<close> strips ASCII white space at both ends, \<^verbatim>\<open>includes\<close> is the
  substring test.
\<close>

definition lower_char :: "char \<Rightarrow> char" where
  "lower_char c =
     (if 65 \<le> (of_char c :: nat) \<and> (of_char c :: nat) \<le> 90
      then char_of ((of_char c :: nat) + 32) else c)"

definition toLowerCase :: "string \<Rightarrow> string" where
  "toLowerCase s = map lower_char s"

definition white_space :: "char \<Rightarrow> bool" where
  "white_space c = ((of_char c :: nat) \<in> {9, 10, 11, 12, 13, 32})"

definition trim :: "string \<Rightarrow> string" where
  "trim s = rev (dropWhile white_space (rev (dropWhile white_space s)))"

definition str_includes :: "string \<Rightarrow> string \<Rightarrow> bool" where
  "str_includes s needle = sublist needle s"

subsection \<open>Elements and the page\<close>

text \<open>
  An element, as far as the script reads and writes it. \<open>interface\<close> says which of the
  script's own interfaces the element is an instance of (an element of another frame's
  document is an instance of none of them); \<open>dispatched\<close> lists the events the script
  has dispatched on it, a click included.
\<close>

type_synonym selector = string

datatype dom_event = Event string

datatype interface = HTMLInputElement | HTMLSelectElement | HTMLTextAreaElement | OtherElement

record option_element =
  opt_text :: string
  opt_value :: string

record element =
  node :: nat
  interface :: interface
  input_type :: string
  checked :: bool
  el_value :: string
  options :: "option_element list"
  textContent :: string
  dispatched :: "dom_event list"

text \<open>
  What \<^verbatim>\<open>querySelector\<close> gives for a selector: it throws a \<^verbatim>\<open>SyntaxError\<close> on a string that is
  not a selector the browser accepts, and otherwise returns null or the first match.
\<close>

datatype 'a queried = Throws | Null | Node 'a

text \<open>
  The document behind an iframe element, read by
  \<^verbatim>\<open>frames[i].contentDocument || frames[i].contentWindow.document\<close>: the access throws for a
  frame of another origin.
\<close>

datatype frame_document = Inaccessible | Document "selector \<Rightarrow> element queried"

text \<open>
  The page at one moment, as the finder can observe it. \<open>iframes\<close> is
  \<^verbatim>\<open>document.querySelectorAll('iframe')\<close>, the iframe elements by identity.
  \<^verbatim>\<open>document.body\<close> is taken to exist (every caller awaits the load of the page first).
\<close>

record page =
  querySelector :: "selector \<Rightarrow> element queried"
  querySelectorAll :: "string \<Rightarrow> element list"
  iframes :: "nat list"
  contentDocument :: "nat \<Rightarrow> frame_document"

subsection \<open>Promises and watchers\<close>

datatype 'a promise = Pending | Fulfilled 'a | Failed js_error

text \<open>
  One call of \<^verbatim>\<open>waitForElementWithMutationObserver\<close> or of \<^verbatim>\<open>findElementByText\<close>: the promise
  it returned and the variables of its closure. \<open>observer\<close>: the MutationObserver is
  connected. \<open>checkInterval\<close>, \<open>timeoutId\<close>: the timer is active, with the time at which
  it is next due. \<open>frames\<close>: the list of iframe elements read at the call.
\<close>

datatype watch = BySelector selector | ByText string "string option"

record watcher =
  watch :: watch
  wait :: nat
  promise :: "element promise"
  observer :: bool
  checkInterval :: "nat option"
  timeoutId :: "nat option"
  frames :: "nat list"

definition new_watcher :: "watch \<Rightarrow> nat \<Rightarrow> watcher" where
  "new_watcher k tmo =
     \<lparr>watch = k, wait = tmo, promise = Pending, observer = False, checkInterval = None,
      timeoutId = None, frames = []\<rparr>"

text \<open>Settling a promise that is already settled does nothing.\<close>

definition resolve :: "element \<Rightarrow> watcher \<Rightarrow> watcher" where
  "resolve e w = (if promise w = Pending then w\<lparr>promise := Fulfilled e\<rparr> else w)"

definition reject :: "js_error \<Rightarrow> watcher \<Rightarrow> watcher" where
  "reject err w = (if promise w = Pending then w\<lparr>promise := Failed err\<rparr> else w)"

definition invalid_selector :: "selector \<Rightarrow> js_error" where
  "invalid_selector sel = JsError ''SyntaxError'' [S sel, S '' is not a valid selector'']"

text \<open>The loop over the frames: the first accessible frame whose document has a match.\<close>

fun search_frames :: "page \<Rightarrow> nat list \<Rightarrow> selector \<Rightarrow> element option" where
  "search_frames pg [] sel = None"
| "search_frames pg (f # fs) sel =
     (case contentDocument pg f of
        Inaccessible \<Rightarrow> search_frames pg fs sel
      | Document q \<Rightarrow>
          (case q sel of
             Node e \<Rightarrow> Some e
           | _ \<Rightarrow> search_frames pg fs sel))"

text \<open>
  \<^verbatim>\<open>waitForElementWithMutationObserver(selector, timeout)\<close>, called at time \<open>now\<close> on the
  page \<open>pg\<close>: the executor of the promise. An exception in the executor rejects the
  promise.
\<close>

definition waitForElementWithMutationObserver :: "selector \<Rightarrow> nat \<Rightarrow> nat \<Rightarrow> page \<Rightarrow> watcher" where
  "waitForElementWithMutationObserver sel tmo now pg =
     (let w = new_watcher (BySelector sel) tmo in
      case querySelector pg sel of
        Throws \<Rightarrow> reject (invalid_selector sel) w
      | Node e \<Rightarrow> resolve e w
      | Null \<Rightarrow>
          (case search_frames pg (iframes pg) sel of
             Some e \<Rightarrow> resolve e (w\<lparr>frames := iframes pg\<rparr>)
           | None \<Rightarrow>
               w\<lparr>frames := iframes pg, checkInterval := Some (now + 1000),
                 timeoutId := Some (now + tmo), observer := True\<rparr>))"

text \<open>
  \<^verbatim>\<open>elements.find(el => el.textContent.trim().toLowerCase().includes(textContent.toLowerCase()))\<close>.
  With \<^verbatim>\<open>textContent\<close> undefined the test throws a \<^verbatim>\<open>TypeError\<close> on the first element.
\<close>

datatype text_search = TextThrows js_error | NoSuchText | WithText element

definition find_by_text :: "page \<Rightarrow> string \<Rightarrow> string option \<Rightarrow> text_search" where
  "find_by_text pg elementType txt =
     (case txt of
        None \<Rightarrow>
          (if querySelectorAll pg elementType = [] then NoSuchText
           else TextThrows (JsError ''TypeError''
                  [S ''Cannot read properties of undefined (reading '', S ''toLowerCase'', S '')'']))
      | Some t \<Rightarrow>
          (case find (\<lambda>el. str_includes (toLowerCase (trim (textContent el))) (toLowerCase t))
                  (querySelectorAll pg elementType) of
             None \<Rightarrow> NoSuchText
           | Some el \<Rightarrow> WithText el))"

definition findElementByText :: "string \<Rightarrow> string option \<Rightarrow> nat \<Rightarrow> nat \<Rightarrow> page \<Rightarrow> watcher" where
  "findElementByText elementType txt tmo now pg =
     (let w = new_watcher (ByText elementType txt) tmo in
      case find_by_text pg elementType txt of
        TextThrows err \<Rightarrow> reject err w
      | WithText el \<Rightarrow> resolve el w
      | NoSuchText \<Rightarrow> w\<lparr>timeoutId := Some (now + tmo), observer := True\<rparr>)"

subsection \<open>The callbacks of a watcher\<close>

text \<open>The callback of the MutationObserver, run on the page as it is then.\<close>

definition observer_callback :: "page \<Rightarrow> watcher \<Rightarrow> watcher" where
  "observer_callback pg w =
     (case watch w of
        BySelector sel \<Rightarrow>
          (case querySelector pg sel of
             Node e \<Rightarrow> resolve e (w\<lparr>timeoutId := None, checkInterval := None, observer := False\<rparr>)
           | _ \<Rightarrow> w)
      | ByText elementType txt \<Rightarrow>
          (case find_by_text pg elementType txt of
             WithText el \<Rightarrow> resolve el (w\<lparr>timeoutId := None, observer := False\<rparr>)
           | _ \<Rightarrow> w))"

text \<open>
  The callback of \<^verbatim>\<open>setInterval(..., 1000)\<close>, run at time \<open>now\<close>; the timer is due again a
  second later unless the callback clears it. Only a selector watcher has this timer.
\<close>

definition interval_check :: "nat \<Rightarrow> page \<Rightarrow> watcher \<Rightarrow> watcher" where
  "interval_check now pg w =
     (let w1 = w\<lparr>checkInterval := Some (now + 1000)\<rparr> in
      case watch w of
        BySelector sel \<Rightarrow>
          (case querySelector pg sel of
             Node e \<Rightarrow> resolve e (w1\<lparr>timeoutId := None, checkInterval := None, observer := False\<rparr>)
           | Throws \<Rightarrow> w1
           | Null \<Rightarrow>
               (case search_frames pg (frames w) sel of
                  Some e \<Rightarrow>
                    resolve e (w1\<lparr>timeoutId := None, checkInterval := None, observer := False\<rparr>)
                | None \<Rightarrow> w1))
      | ByText elementType txt \<Rightarrow> w1)"

text \<open>The callback of \<^verbatim>\<open>setTimeout(..., timeout)\<close>.\<close>

definition not_found :: "watcher \<Rightarrow> js_error" where
  "not_found w =
     (case watch w of
        BySelector sel \<Rightarrow>
          JsError ''Error'' [S ''Element '', S sel, S '' not found within '', N (int (wait w)), S ''ms'']
      | ByText elementType txt \<Rightarrow>
          JsError ''Error''
            [S elementType, S '' with text \"'',
             S (case txt of None \<Rightarrow> ''undefined'' | Some t \<Rightarrow> t),
             S ''\" not found within '', N (int (wait w)), S ''ms''])"

definition timeout_callback :: "watcher \<Rightarrow> watcher" where
  "timeout_callback w =
     reject (not_found w) (w\<lparr>timeoutId := None, observer := False, checkInterval := None\<rparr>)"

subsection \<open>The race\<close>

text \<open>
  A call of \<^verbatim>\<open>findElement\<close>: the clock, the page, the watchers in the order of their
  creation (one per selector, then the one by text), and the promise of
  \<^verbatim>\<open>Promise.race\<close>, which \<^verbatim>\<open>findElement\<close> passes on (it logs a rejection and throws it
  again), with the time at which it settled. What the finder writes to the console is
  left out.
\<close>

record finder =
  clock :: nat
  document :: page
  watchers :: "watcher list"
  race :: "element promise"
  settled_at :: "nat option"

text \<open>
  \<^verbatim>\<open>Promise.race\<close> settles as the first of its promises to settle. The watchers settle in
  callbacks, which run one at a time, and the observers are notified in the order of
  their creation: after each event the race, if pending, takes the first settled
  promise in the order of the list.
\<close>

definition first_settled :: "watcher list \<Rightarrow> element promise" where
  "first_settled ws = (case filter (\<lambda>w. promise w \<noteq> Pending) ws of [] \<Rightarrow> Pending | w # _ \<Rightarrow> promise w)"

definition settle_race :: "finder \<Rightarrow> finder" where
  "settle_race s =
     (if race s = Pending \<and> first_settled (watchers s) \<noteq> Pending
      then s\<lparr>race := first_settled (watchers s), settled_at := Some (clock s)\<rparr>
      else s)"

definition findElement :: "selector list \<Rightarrow> nat \<Rightarrow> nat \<Rightarrow> page \<Rightarrow> finder" where
  "findElement selectorOptions tmo now pg =
     settle_race
       \<lparr>clock = now, document = pg,
        watchers =
          map (\<lambda>sel. waitForElementWithMutationObserver sel tmo now pg) selectorOptions
          @ [findElementByText ''button'' (case selectorOptions of [] \<Rightarrow> None | s # _ \<Rightarrow> Some s)
               tmo now pg],
        race = Pending, settled_at = None\<rparr>"

text \<open>\<^verbatim>\<open>AUTOMATION_CONFIG.timeouts.elementWait\<close>, the default timeout of \<^verbatim>\<open>findElement\<close>.\<close>

definition elementWait :: nat where
  "elementWait = 30000"

subsection \<open>What the browser does after the call\<close>

text \<open>
  Time passes; the page changes with mutation records under \<^verbatim>\<open>document.body\<close> (child list
  or character data, or attributes only: the observer of the text watcher does not ask
  for attributes) and the connected observers are called with the page as it then is;
  the page changes where no observer of the call looks (inside a frame, a state of an
  element); a timer of a watcher fires, which it does only when it is active and due.
\<close>

datatype mutation = Structural | AttributesOnly

datatype browser_event =
    Elapse nat
  | Mutation mutation page
  | Unobserved page
  | IntervalDue nat
  | TimeoutDue nat

definition notify :: "mutation \<Rightarrow> page \<Rightarrow> watcher \<Rightarrow> watcher" where
  "notify m pg w =
     (if observer w \<and> (case watch w of BySelector sel \<Rightarrow> True | ByText ty txt \<Rightarrow> m = Structural)
      then observer_callback pg w else w)"

definition due :: "nat option \<Rightarrow> nat \<Rightarrow> bool" where
  "due t now = (case t of None \<Rightarrow> False | Some d \<Rightarrow> d \<le> now)"

fun finder_step :: "browser_event \<Rightarrow> finder \<Rightarrow> finder" where
  "finder_step (Elapse n) s = s\<lparr>clock := clock s + n\<rparr>"
| "finder_step (Unobserved pg) s = s\<lparr>document := pg\<rparr>"
| "finder_step (Mutation m pg) s =
     settle_race (s\<lparr>document := pg, watchers := map (notify m pg) (watchers s)\<rparr>)"
| "finder_step (IntervalDue i) s =
     (if i < length (watchers s) \<and> due (checkInterval (watchers s ! i)) (clock s)
      then settle_race
             (s\<lparr>watchers := (watchers s)[i := interval_check (clock s) (document s) (watchers s ! i)]\<rparr>)
      else s)"
| "finder_step (TimeoutDue i) s =
     (if i < length (watchers s) \<and> due (timeoutId (watchers s ! i)) (clock s)
      then settle_race (s\<lparr>watchers := (watchers s)[i := timeout_callback (watchers s ! i)]\<rparr>)
      else s)"

fun finder_run :: "browser_event list \<Rightarrow> finder \<Rightarrow> finder" where
  "finder_run [] s = s"
| "finder_run (e # es) s = finder_run es (finder_step e s)"

subsection \<open>Filling a field\<close>

text \<open>
  The part of \<^verbatim>\<open>fillInput\<close> after the element is found. A click on an unchecked checkbox
  checks it. Nothing is done to an element that is none of the three kinds.
\<close>

definition matching_option :: "string \<Rightarrow> option_element \<Rightarrow> bool" where
  "matching_option v opt =
     (str_includes (toLowerCase (opt_text opt)) (toLowerCase v)
      \<or> str_includes (toLowerCase (opt_value opt)) (toLowerCase v))"

definition fill :: "element \<Rightarrow> string \<Rightarrow> element" where
  "fill input v =
     (if interface input = HTMLInputElement \<and> input_type input = ''checkbox'' then
        (if \<not> checked input
         then input\<lparr>checked := True, dispatched := dispatched input @ [Event ''click'']\<rparr>
         else input)
      else if interface input = HTMLSelectElement then
        (case find (matching_option v) (options input) of
           Some opt \<Rightarrow>
             input\<lparr>el_value := opt_value opt, dispatched := dispatched input @ [Event ''change'']\<rparr>
         | None \<Rightarrow> input)
      else if interface input = HTMLInputElement \<or> interface input = HTMLTextAreaElement then
        input\<lparr>el_value := v, dispatched := dispatched input @ [Event ''input'', Event ''change'']\<rparr>
      else input)"


section \<open>Properties of the form filler\<close>

lemmas finder_defs = findElement_def waitForElementWithMutationObserver_def findElementByText_def
  find_by_text_def new_watcher_def resolve_def reject_def settle_race_def first_settled_def
  observer_callback_def interval_check_def timeout_callback_def not_found_def notify_def due_def
  invalid_selector_def elementWait_def






section \<open>Properties of the element finder\<close>

subsection \<open>What every watcher keeps\<close>

text \<open>
  A watcher created at \<open>t0\<close> with timeout \<open>tmo\<close>: while its promise is pending its observer
  is connected and its timeout timer is active, due at \<open>t0 + tmo\<close>; once its promise has
  settled it holds no observer and no timer.
\<close>

definition released :: "watcher \<Rightarrow> bool" where
  "released w = (\<not> observer w \<and> checkInterval w = None \<and> timeoutId w = None)"

definition watcher_ok :: "nat \<Rightarrow> nat \<Rightarrow> watcher \<Rightarrow> bool" where
  "watcher_ok t0 tmo w =
     (wait w = tmo
      \<and> (case watch w of BySelector sel \<Rightarrow> True | ByText ty txt \<Rightarrow> checkInterval w = None)
      \<and> (if promise w = Pending then observer w \<and> timeoutId w = Some (t0 + tmo) else released w))"

lemma watcher_ok_selector: "watcher_ok t0 tmo (waitForElementWithMutationObserver sel tmo t0 pg)"
  by (cases "querySelector pg sel"; cases "search_frames pg (iframes pg) sel")
     (simp_all add: watcher_ok_def released_def waitForElementWithMutationObserver_def
        new_watcher_def resolve_def reject_def Let_def)

lemma watcher_ok_text: "watcher_ok t0 tmo (findElementByText ty txt tmo t0 pg)"
  by (cases "find_by_text pg ty txt")
     (simp_all add: watcher_ok_def released_def findElementByText_def new_watcher_def
        resolve_def reject_def Let_def)

lemma watcher_ok_observer_callback: "watcher_ok t0 tmo w \<Longrightarrow> watcher_ok t0 tmo (observer_callback pg w)"
  by (auto simp: watcher_ok_def released_def observer_callback_def resolve_def
      split: watch.splits queried.splits text_search.splits if_splits)

lemma watcher_ok_notify: "watcher_ok t0 tmo w \<Longrightarrow> watcher_ok t0 tmo (notify m pg w)"
  by (simp add: notify_def watcher_ok_observer_callback)

lemma watcher_ok_interval_check: "watcher_ok t0 tmo w \<Longrightarrow> checkInterval w \<noteq> None \<Longrightarrow>
  watcher_ok t0 tmo (interval_check now pg w)"
  by (auto simp: watcher_ok_def released_def interval_check_def resolve_def Let_def
      split: watch.splits queried.splits option.splits if_splits)

lemma watcher_ok_timeout_callback: "watcher_ok t0 tmo w \<Longrightarrow> watcher_ok t0 tmo (timeout_callback w)"
  by (auto simp: watcher_ok_def released_def timeout_callback_def reject_def
      split: if_splits watch.splits)


subsection \<open>What every call keeps\<close>

text \<open>
  The race is pending exactly as long as every watcher is; it settles once, not before
  the call, and the clock does not run backwards.
\<close>

definition finder_ok :: "nat \<Rightarrow> nat \<Rightarrow> finder \<Rightarrow> bool" where
  "finder_ok t0 tmo s =
     ((\<forall>w \<in> set (watchers s). watcher_ok t0 tmo w)
      \<and> t0 \<le> clock s
      \<and> (race s = Pending \<longleftrightarrow> (\<forall>w \<in> set (watchers s). promise w = Pending))
      \<and> (race s = Pending \<longleftrightarrow> settled_at s = None))"

lemma first_settled_Pending_iff:
  "first_settled ws = Pending \<longleftrightarrow> (\<forall>w \<in> set ws. promise w = Pending)"
proof (induction ws)
  case Nil
  show ?case by (simp add: first_settled_def)
next
  case (Cons w ws)
  then show ?case by (auto simp: first_settled_def split: list.splits)
qed

lemma watchers_settle_race [simp]: "watchers (settle_race s) = watchers s"
  by (simp add: settle_race_def)

lemma clock_settle_race [simp]: "clock (settle_race s) = clock s"
  by (simp add: settle_race_def)

lemma document_settle_race [simp]: "document (settle_race s) = document s"
  by (simp add: settle_race_def)

text \<open>A state whose race agrees with the watchers it had before the latest callbacks.\<close>

lemma finder_ok_settle_race:
  assumes "\<forall>w \<in> set (watchers s). watcher_ok t0 tmo w" "t0 \<le> clock s"
    and "race s = Pending \<longleftrightarrow> settled_at s = None"
    and "race s \<noteq> Pending \<Longrightarrow> \<exists>w \<in> set (watchers s). promise w \<noteq> Pending"
  shows "finder_ok t0 tmo (settle_race s)"
  using assms
  by (auto simp: finder_ok_def settle_race_def first_settled_Pending_iff)

lemma finder_ok_findElement: "finder_ok t0 tmo (findElement sels tmo t0 pg)"
  unfolding findElement_def
  by (rule finder_ok_settle_race) (auto simp: watcher_ok_selector watcher_ok_text)

lemma promise_notify_settled: "promise w \<noteq> Pending \<Longrightarrow> promise (notify m pg w) \<noteq> Pending"
  by (auto simp: notify_def observer_callback_def resolve_def
      split: watch.splits queried.splits text_search.splits)

lemma settled_elsewhere:
  assumes "promise (ws ! i) = Pending" "w \<in> set ws" "promise w \<noteq> Pending"
  shows "\<exists>w' \<in> set (ws[i := x]). promise w' \<noteq> Pending"
proof -
  from assms(2) obtain j where j: "j < length ws" "ws ! j = w"
    by (auto simp: in_set_conv_nth)
  with assms(1,3) have "j \<noteq> i" by auto
  with j have "ws[i := x] ! j = w" "j < length (ws[i := x])" by simp_all
  then have "w \<in> set (ws[i := x])" by (metis nth_mem)
  with assms(3) show ?thesis by blast
qed

lemma finder_ok_step: "finder_ok t0 tmo s \<Longrightarrow> finder_ok t0 tmo (finder_step e s)"
proof (cases e)
  case (Elapse n)
  assume "finder_ok t0 tmo s"
  with Elapse show ?thesis by (auto simp: finder_ok_def)
next
  case (Unobserved pg)
  assume "finder_ok t0 tmo s"
  with Unobserved show ?thesis by (auto simp: finder_ok_def)
next
  case (Mutation m pg)
  assume ok: "finder_ok t0 tmo s"
  let ?s = "s\<lparr>document := pg, watchers := map (notify m pg) (watchers s)\<rparr>"
  have "finder_ok t0 tmo (settle_race ?s)"
  proof (rule finder_ok_settle_race)
    show "\<forall>w \<in> set (watchers ?s). watcher_ok t0 tmo w"
      using ok by (auto simp: finder_ok_def watcher_ok_notify)
    show "t0 \<le> clock ?s" using ok by (auto simp: finder_ok_def)
    show "race ?s = Pending \<longleftrightarrow> settled_at ?s = None"
      using ok by (auto simp: finder_ok_def)
    assume "race ?s \<noteq> Pending"
    with ok obtain w where "w \<in> set (watchers s)" "promise w \<noteq> Pending"
      by (auto simp: finder_ok_def)
    then show "\<exists>w \<in> set (watchers ?s). promise w \<noteq> Pending"
      using promise_notify_settled [of w m pg] by auto
  qed
  with Mutation show ?thesis by simp
next
  case (IntervalDue i)
  assume ok: "finder_ok t0 tmo s"
  show ?thesis
  proof (cases "i < length (watchers s) \<and> due (checkInterval (watchers s ! i)) (clock s)")
    case False
    with IntervalDue ok show ?thesis by auto
  next
    case True
    let ?w = "watchers s ! i"
    let ?s = "s\<lparr>watchers := (watchers s)[i := interval_check (clock s) (document s) ?w]\<rparr>"
    from True have i: "i < length (watchers s)" and act: "checkInterval ?w \<noteq> None"
      by (auto simp: due_def split: option.splits)
    from ok i have wi: "watcher_ok t0 tmo ?w"
      by (simp add: finder_ok_def)
    from wi act have pend: "promise ?w = Pending"
      by (auto simp: watcher_ok_def released_def split: if_splits)
    have "finder_ok t0 tmo (settle_race ?s)"
    proof (rule finder_ok_settle_race)
      show "\<forall>w \<in> set (watchers ?s). watcher_ok t0 tmo w"
        using ok wi act i
        by (auto simp: finder_ok_def watcher_ok_interval_check dest!: set_update_subset_insert [THEN subsetD])
      show "t0 \<le> clock ?s" using ok by (auto simp: finder_ok_def)
      show "race ?s = Pending \<longleftrightarrow> settled_at ?s = None"
        using ok by (auto simp: finder_ok_def)
      assume "race ?s \<noteq> Pending"
      with ok pend i show "\<exists>w \<in> set (watchers ?s). promise w \<noteq> Pending"
        by (auto simp: finder_ok_def intro: settled_elsewhere)
    qed
    with IntervalDue True show ?thesis by simp
  qed
next
  case (TimeoutDue i)
  assume ok: "finder_ok t0 tmo s"
  show ?thesis
  proof (cases "i < length (watchers s) \<and> due (timeoutId (watchers s ! i)) (clock s)")
    case False
    with TimeoutDue ok show ?thesis by auto
  next
    case True
    let ?w = "watchers s ! i"
    let ?s = "s\<lparr>watchers := (watchers s)[i := timeout_callback ?w]\<rparr>"
    from True have i: "i < length (watchers s)" and act: "timeoutId ?w \<noteq> None"
      by (auto simp: due_def split: option.splits)
    from ok i have wi: "watcher_ok t0 tmo ?w"
      by (simp add: finder_ok_def)
    from wi act have pend: "promise ?w = Pending"
      by (auto simp: watcher_ok_def released_def split: if_splits)
    have "finder_ok t0 tmo (settle_race ?s)"
    proof (rule finder_ok_settle_race)
      show "\<forall>w \<in> set (watchers ?s). watcher_ok t0 tmo w"
        using ok wi i
        by (auto simp: finder_ok_def watcher_ok_timeout_callback dest!: set_update_subset_insert [THEN subsetD])
      show "t0 \<le> clock ?s" using ok by (auto simp: finder_ok_def)
      show "race ?s = Pending \<longleftrightarrow> settled_at ?s = None"
        using ok by (auto simp: finder_ok_def)
      assume "race ?s \<noteq> Pending"
      with ok pend i show "\<exists>w \<in> set (watchers ?s). promise w \<noteq> Pending"
        by (auto simp: finder_ok_def intro: settled_elsewhere)
    qed
    with TimeoutDue True show ?thesis by simp
  qed
qed



subsection \<open>Losing watchers are not cancelled\<close>

lemma timeout_callback_settles: "promise (timeout_callback w) \<noteq> Pending"
  by (simp add: timeout_callback_def reject_def)

lemma timeout_due_settles:
  assumes ok: "finder_ok t0 tmo s" and i: "i < length (watchers s)" and late: "t0 + tmo \<le> clock s"
  shows "promise (watchers (finder_step (TimeoutDue i) s) ! i) \<noteq> Pending"
proof (cases "promise (watchers s ! i) = Pending")
  case True
  from ok i have "watcher_ok t0 tmo (watchers s ! i)"
    by (simp add: finder_ok_def)
  with True have "timeoutId (watchers s ! i) = Some (t0 + tmo)"
    by (simp add: watcher_ok_def)
  with late have "due (timeoutId (watchers s ! i)) (clock s)"
    by (simp add: due_def)
  with i show ?thesis
    by (simp add: timeout_callback_settles)
next
  case False
  from ok i have "watcher_ok t0 tmo (watchers s ! i)"
    by (simp add: finder_ok_def)
  with False have "timeoutId (watchers s ! i) = None"
    by (simp add: watcher_ok_def released_def)
  then have "\<not> due (timeoutId (watchers s ! i)) (clock s)"
    by (simp add: due_def)
  with False show ?thesis by simp
qed







subsection \<open>The immediate check\<close>

text \<open>What the immediate check of one selector finds: the document first, then the frames.\<close>

definition immediate :: "page \<Rightarrow> selector \<Rightarrow> element option" where
  "immediate pg sel =
     (case querySelector pg sel of
        Throws \<Rightarrow> None
      | Node e \<Rightarrow> Some e
      | Null \<Rightarrow> search_frames pg (iframes pg) sel)"

lemma promise_selector_watcher:
  "promise (waitForElementWithMutationObserver sel tmo now pg) =
     (if querySelector pg sel = Throws then Failed (invalid_selector sel)
      else case immediate pg sel of Some e \<Rightarrow> Fulfilled e | None \<Rightarrow> Pending)"
  by (cases "querySelector pg sel"; cases "search_frames pg (iframes pg) sel")
     (simp_all add: waitForElementWithMutationObserver_def immediate_def new_watcher_def
        resolve_def reject_def Let_def)

lemma first_settled_Cons:
  "first_settled (w # ws) = (if promise w = Pending then first_settled ws else promise w)"
  by (simp add: first_settled_def)

lemma first_settled_selectors:
  assumes "\<forall>sel \<in> set sels. querySelector pg sel \<noteq> Throws"
    and "find (\<lambda>sel. immediate pg sel \<noteq> None) sels = Some sel0"
    and "immediate pg sel0 = Some e"
  shows "first_settled (map (\<lambda>sel. waitForElementWithMutationObserver sel tmo now pg) sels @ rest)
         = Fulfilled e"
  using assms
proof (induction sels)
  case Nil
  then show ?case by simp
next
  case (Cons sel sels)
  show ?case
  proof (cases "immediate pg sel")
    case None
    with Cons.prems have "find (\<lambda>sel. immediate pg sel \<noteq> None) sels = Some sel0"
      by simp
    with Cons have "first_settled
        (map (\<lambda>sel. waitForElementWithMutationObserver sel tmo now pg) sels @ rest) = Fulfilled e"
      by simp
    with None Cons.prems(1) show ?thesis
      by (simp add: first_settled_Cons promise_selector_watcher)
  next
    case (Some e')
    with Cons.prems have "sel0 = sel" "e' = e"
      by simp_all
    with Some Cons.prems(1) show ?thesis
      by (simp add: first_settled_Cons promise_selector_watcher)
  qed
qed

lemma race_stable_step:
  "race s \<noteq> Pending \<Longrightarrow>
   race (finder_step ev s) = race s \<and> settled_at (finder_step ev s) = settled_at s"
  by (cases ev) (simp_all add: settle_race_def)

lemma race_stable_run:
  "race s \<noteq> Pending \<Longrightarrow>
   race (finder_run evs s) = race s \<and> settled_at (finder_run evs s) = settled_at s"
proof (induction evs arbitrary: s)
  case Nil
  show ?case by simp
next
  case (Cons ev evs)
  from race_stable_step [OF Cons.prems, of ev]
  have "race (finder_step ev s) = race s" "settled_at (finder_step ev s) = settled_at s"
    by simp_all
  with Cons.IH [of "finder_step ev s"] Cons.prems show ?case
    by simp
qed

text \<open>
  When \<^verbatim>\<open>querySelector\<close> accepts every selector of the list and the immediate check of
  some selector finds an element, the call is fulfilled at the time of the call with the
  element found for the first such selector, and stays so whatever happens afterwards.
\<close>

lemma findElement_resolves_with_first_immediate_match:
  assumes "\<forall>sel \<in> set sels. querySelector pg sel \<noteq> Throws"
    and "find (\<lambda>sel. immediate pg sel \<noteq> None) sels = Some sel0"
    and "immediate pg sel0 = Some e"
  shows "race (finder_run evs (findElement sels tmo t0 pg)) = Fulfilled e
         \<and> settled_at (finder_run evs (findElement sels tmo t0 pg)) = Some t0"
proof -
  have "race (findElement sels tmo t0 pg) = Fulfilled e
        \<and> settled_at (findElement sels tmo t0 pg) = Some t0"
    using first_settled_selectors [OF assms, of tmo t0]
    by (simp add: findElement_def settle_race_def)
  with race_stable_run [of "findElement sels tmo t0 pg" evs] show ?thesis
    by simp
qed

text \<open>
  The selectors of the search button in the configuration. The second and the third use
  \<^verbatim>\<open>:contains(...)\<close>, which is jQuery's and no CSS selector: \<^verbatim>\<open>querySelector\<close> throws a
  \<^verbatim>\<open>SyntaxError\<close> on them. The page has the search button as \<^verbatim>\<open>button.btn-primary\<close>,
  the fourth selector, and not as \<^verbatim>\<open>button.h-SearchButton\<close>, the first.
\<close>

definition search_button :: element where
  "search_button =
     \<lparr>node = 5, interface = OtherElement, input_type = ''submit'', checked = False,
      el_value = [], options = [], textContent = ''Search'', dispatched = []\<rparr>"

definition results_page :: page where
  "results_page =
     \<lparr>querySelector =
        (\<lambda>sel. if str_includes sel '':contains('' then Throws
               else if sel = ''button.btn-primary'' then Node search_button
               else Null),
      querySelectorAll = (\<lambda>ty. if ty = ''button'' then [search_button] else []),
      iframes = [],
      contentDocument = (\<lambda>f. Inaccessible)\<rparr>"

text \<open>
  Claim C1, at an input of the repository's own. The call looks for the search button
  with the selectors of the configuration, on a page where the fourth selector matches
  the button at the time of the call. The claim has the call fulfilled with the button.
  The call is rejected instead, at the time of the call, with the \<^verbatim>\<open>SyntaxError\<close> that
  \<^verbatim>\<open>querySelector\<close> throws on the second selector: the exception rejects the promise of
  that watcher in its executor, and a promise already rejected wins the race against the
  promise of the fourth watcher, which comes after it.
\<close>

theorem findElement_rejected_although_a_selector_matches:
  "buttons_search ! 3 = ''button.btn-primary''
   \<and> immediate results_page (buttons_search ! 3) = Some search_button
   \<and> promise (watchers (findElement buttons_search elementWait 0 results_page) ! 3)
       = Fulfilled search_button
   \<and> race (findElement buttons_search elementWait 0 results_page)
       = Failed (invalid_selector (buttons_search ! 1))
   \<and> settled_at (findElement buttons_search elementWait 0 results_page) = Some 0
   \<and> race (finder_run [Elapse 30000, TimeoutDue 0]
              (findElement buttons_search elementWait 0 results_page))
       = Failed (invalid_selector (buttons_search ! 1))"
  by (simp add: finder_defs immediate_def buttons_search_def results_page_def Let_def
      str_includes_def sublist_code)

subsection \<open>When nothing ever matches\<close>

text \<open>
  A page on which the call finds nothing: \<^verbatim>\<open>querySelector\<close> returns null for every selector
  of the list, in the document and in the frames read at the call, and no button has the
  text looked for. \<open>pages\<close> are the states of the page that a run of events goes through.
\<close>

definition first_selector :: "selector list \<Rightarrow> string option" where
  "first_selector sels = (case sels of [] \<Rightarrow> None | s # _ \<Rightarrow> Some s)"

definition blank :: "selector list \<Rightarrow> nat list \<Rightarrow> page \<Rightarrow> bool" where
  "blank sels fs pg =
     ((\<forall>sel \<in> set sels. querySelector pg sel = Null \<and> search_frames pg fs sel = None)
      \<and> find_by_text pg ''button'' (first_selector sels) = NoSuchText)"

fun pages :: "browser_event list \<Rightarrow> page list" where
  "pages [] = []"
| "pages (Mutation m pg # evs) = pg # pages evs"
| "pages (Unobserved pg # evs) = pg # pages evs"
| "pages (ev # evs) = pages evs"

definition watching :: "selector list \<Rightarrow> nat list \<Rightarrow> watcher \<Rightarrow> bool" where
  "watching sels fs w =
     (case watch w of
        BySelector sel \<Rightarrow> sel \<in> set sels \<and> frames w = fs
      | ByText ty txt \<Rightarrow> ty = ''button'' \<and> txt = first_selector sels)"

definition unmatched :: "watcher \<Rightarrow> bool" where
  "unmatched w = (promise w = Pending \<or> promise w = Failed (not_found w))"

definition quiet :: "selector list \<Rightarrow> nat list \<Rightarrow> nat \<Rightarrow> nat \<Rightarrow> finder \<Rightarrow> bool" where
  "quiet sels fs t0 tmo s =
     (finder_ok t0 tmo s
      \<and> blank sels fs (document s)
      \<and> (\<forall>w \<in> set (watchers s). watching sels fs w \<and> unmatched w)
      \<and> (race s = Pending \<or> race s \<in> Failed ` not_found ` set (watchers s))
      \<and> (\<forall>t. settled_at s = Some t \<longrightarrow> t0 + tmo \<le> t))"

lemma observer_callback_blank:
  "blank sels fs pg \<Longrightarrow> watching sels fs w \<Longrightarrow> observer_callback pg w = w"
  by (auto simp: blank_def watching_def observer_callback_def split: watch.splits)

lemma notify_blank: "blank sels fs pg \<Longrightarrow> watching sels fs w \<Longrightarrow> notify m pg w = w"
  by (simp add: notify_def observer_callback_blank)

lemma interval_check_blank:
  "blank sels fs pg \<Longrightarrow> watching sels fs w \<Longrightarrow>
   interval_check now pg w = w\<lparr>checkInterval := Some (now + 1000)\<rparr>"
  by (auto simp: blank_def watching_def interval_check_def Let_def split: watch.splits)

lemma watching_timeout_callback: "watching sels fs w \<Longrightarrow> watching sels fs (timeout_callback w)"
  by (auto simp: watching_def timeout_callback_def reject_def split: watch.splits)

lemma unmatched_timeout_callback: "unmatched w \<Longrightarrow> unmatched (timeout_callback w)"
  by (auto simp: unmatched_def timeout_callback_def reject_def not_found_def split: watch.splits)

lemma settle_race_all_pending:
  "\<forall>w \<in> set (watchers s). promise w = Pending \<Longrightarrow> settle_race s = s"
  by (simp add: settle_race_def first_settled_Pending_iff)

lemma settle_race_settled: "race s \<noteq> Pending \<Longrightarrow> settle_race s = s"
  by (simp add: settle_race_def)

lemma settled_at_settle_race:
  "settled_at (settle_race s) = Some t \<Longrightarrow> settled_at s = Some t \<or> t = clock s"
  by (auto simp: settle_race_def split: if_splits)


lemma quiet_findElement:
  assumes "blank sels (iframes pg) pg"
  shows "quiet sels (iframes pg) t0 tmo (findElement sels tmo t0 pg)"
proof -
  let ?ws = "map (\<lambda>sel. waitForElementWithMutationObserver sel tmo t0 pg) sels
             @ [findElementByText ''button'' (first_selector sels) tmo t0 pg]"
  let ?s = "\<lparr>clock = t0, document = pg, watchers = ?ws, race = Pending, settled_at = None\<rparr>"
  have sel_w: "promise (waitForElementWithMutationObserver sel tmo t0 pg) = Pending
             \<and> watching sels (iframes pg) (waitForElementWithMutationObserver sel tmo t0 pg)"
    if "sel \<in> set sels" for sel
    using that assms
    by (simp add: blank_def watching_def waitForElementWithMutationObserver_def new_watcher_def
        Let_def)
  have txt_w: "promise (findElementByText ''button'' (first_selector sels) tmo t0 pg) = Pending
             \<and> watching sels (iframes pg) (findElementByText ''button'' (first_selector sels) tmo t0 pg)"
    using assms
    by (simp add: blank_def watching_def findElementByText_def new_watcher_def Let_def)
  have pend: "\<forall>w \<in> set (watchers ?s). promise w = Pending"
    using sel_w txt_w by auto
  have eq: "findElement sels tmo t0 pg = ?s"
    using settle_race_all_pending [OF pend]
    by (simp add: findElement_def first_selector_def)
  have "finder_ok t0 tmo (findElement sels tmo t0 pg)"
    by (rule finder_ok_findElement)
  moreover have "blank sels (iframes pg) (document ?s)"
    using assms by simp
  moreover have "\<forall>w \<in> set (watchers ?s). watching sels (iframes pg) w \<and> unmatched w"
    using sel_w txt_w by (auto simp: unmatched_def)
  ultimately show ?thesis
    unfolding quiet_def eq by simp
qed

lemma first_settled_mem:
  "first_settled ws \<noteq> Pending \<Longrightarrow> \<exists>w \<in> set ws. first_settled ws = promise w"
  by (induction ws) (auto simp: first_settled_Cons first_settled_def)

lemma not_found_update:
  assumes "i < length ws" "not_found x = not_found (ws ! i)"
  shows "not_found ` set (ws[i := x]) = not_found ` set ws"
proof -
  have "map not_found (ws[i := x]) = map not_found ws"
    using assms by (simp add: map_update list_update_same_conv)
  then have "set (map not_found (ws[i := x])) = set (map not_found ws)"
    by simp
  then show ?thesis by simp
qed

lemma watch_timeout_callback:
  "watch (timeout_callback w) = watch w" "wait (timeout_callback w) = wait w"
  by (simp_all add: timeout_callback_def reject_def)

lemma not_found_timeout_callback: "not_found (timeout_callback w) = not_found w"
  by (simp add: not_found_def watch_timeout_callback split: watch.splits)

lemma quiet_step:
  assumes q: "quiet sels fs t0 tmo s" and bl: "\<forall>p \<in> set (pages [ev]). blank sels fs p"
  shows "quiet sels fs t0 tmo (finder_step ev s)"
proof -
  from q have ok: "finder_ok t0 tmo s" and doc: "blank sels fs (document s)"
    and ws: "\<forall>w \<in> set (watchers s). watching sels fs w \<and> unmatched w"
    and rc: "race s = Pending \<or> race s \<in> Failed ` not_found ` set (watchers s)"
    and at: "\<forall>t. settled_at s = Some t \<longrightarrow> t0 + tmo \<le> t"
    by (simp_all add: quiet_def)
  have ok': "finder_ok t0 tmo (finder_step ev s)"
    using ok by (rule finder_ok_step)
  have same: "settle_race s' = s'"
    if "race s' = race s" "map promise (watchers s') = map promise (watchers s)" for s'
  proof (cases "race s = Pending")
    case True
    with ok have "\<forall>w \<in> set (watchers s). promise w = Pending"
      by (simp add: finder_ok_def)
    then have "\<forall>p \<in> set (map promise (watchers s)). p = Pending" by simp
    with that(2) have "\<forall>p \<in> set (map promise (watchers s')). p = Pending" by simp
    then have "\<forall>w \<in> set (watchers s'). promise w = Pending" by simp
    then show ?thesis by (rule settle_race_all_pending)
  next
    case False
    with that(1) show ?thesis by (simp add: settle_race_settled)
  qed
  show ?thesis
  proof (cases ev)
    case (Elapse n)
    have "finder_step ev s = s\<lparr>clock := clock s + n\<rparr>"
      using Elapse by simp
    with ok' doc ws rc at show ?thesis
      by (simp add: quiet_def)
  next
    case (Unobserved pg)
    with bl have "blank sels fs pg" by simp
    moreover have "finder_step ev s = s\<lparr>document := pg\<rparr>"
      using Unobserved by simp
    ultimately show ?thesis
      using ok' ws rc at by (simp add: quiet_def)
  next
    case (Mutation m pg)
    with bl have b: "blank sels fs pg" by simp
    have "map (notify m pg) (watchers s) = watchers s"
      using ws b by (simp add: map_idI notify_blank)
    then have st: "finder_step ev s = s\<lparr>document := pg\<rparr>"
      using Mutation same [of "s\<lparr>document := pg\<rparr>"] by simp
    with ok' b ws rc at show ?thesis
      by (simp add: quiet_def)
  next
    case (IntervalDue i)
    show ?thesis
    proof (cases "i < length (watchers s) \<and> due (checkInterval (watchers s ! i)) (clock s)")
      case False
      then have "finder_step ev s = s"
        using IntervalDue by auto
      with q show ?thesis by simp
    next
      case True
      let ?w = "(watchers s ! i)\<lparr>checkInterval := Some (clock s + 1000)\<rparr>"
      from True ws have wi: "watching sels fs (watchers s ! i)" "unmatched (watchers s ! i)"
        by simp_all
      with doc have ic: "interval_check (clock s) (document s) (watchers s ! i) = ?w"
        by (simp add: interval_check_blank)
      have "map promise ((watchers s)[i := ?w]) = map promise (watchers s)"
        using True by (simp add: map_update list_update_same_conv)
      then have st: "finder_step ev s = s\<lparr>watchers := (watchers s)[i := ?w]\<rparr>"
        using IntervalDue True ic same [of "s\<lparr>watchers := (watchers s)[i := ?w]\<rparr>"] by simp
      have "watching sels fs ?w \<and> unmatched ?w"
        using wi by (auto simp: watching_def unmatched_def not_found_def split: watch.splits)
      with ws have ws': "\<forall>w \<in> set ((watchers s)[i := ?w]). watching sels fs w \<and> unmatched w"
        by (auto dest!: set_update_subset_insert [THEN subsetD])
      have "not_found ?w = not_found (watchers s ! i)"
        by (simp add: not_found_def split: watch.splits)
      with True have "not_found ` set ((watchers s)[i := ?w]) = not_found ` set (watchers s)"
        by (simp add: not_found_update)
      with rc have rc': "race s = Pending \<or> race s \<in> Failed ` not_found ` set ((watchers s)[i := ?w])"
        by simp
      from ok' doc at ws' rc' show ?thesis
        unfolding st by (simp add: quiet_def)
    qed
  next
    case (TimeoutDue i)
    show ?thesis
    proof (cases "i < length (watchers s) \<and> due (timeoutId (watchers s ! i)) (clock s)")
      case False
      then have "finder_step ev s = s"
        using TimeoutDue by auto
      with q show ?thesis by simp
    next
      case True
      let ?ws = "(watchers s)[i := timeout_callback (watchers s ! i)]"
      let ?s = "s\<lparr>watchers := ?ws\<rparr>"
      from True have st: "finder_step ev s = settle_race ?s"
        using TimeoutDue by simp
      from True ok have "watcher_ok t0 tmo (watchers s ! i)"
        by (simp add: finder_ok_def)
      with True have late: "t0 + tmo \<le> clock s"
        by (auto simp: watcher_ok_def released_def due_def split: if_splits option.splits)
      from True ws have "watching sels fs (watchers s ! i)" "unmatched (watchers s ! i)"
        by simp_all
      then have "watching sels fs (timeout_callback (watchers s ! i))
                 \<and> unmatched (timeout_callback (watchers s ! i))"
        by (simp add: watching_timeout_callback unmatched_timeout_callback)
      with ws have ws': "\<forall>w \<in> set ?ws. watching sels fs w \<and> unmatched w"
        by (auto dest!: set_update_subset_insert [THEN subsetD])
      have img: "not_found ` set ?ws = not_found ` set (watchers s)"
        using True by (simp add: not_found_update not_found_timeout_callback)
      have rc': "race (settle_race ?s) = Pending
                 \<or> race (settle_race ?s) \<in> Failed ` not_found ` set ?ws"
      proof (cases "race s = Pending \<and> first_settled ?ws \<noteq> Pending")
        case True
        then obtain w where w: "w \<in> set ?ws" "first_settled ?ws = promise w"
          using first_settled_mem by blast
        with True ws' have "promise w = Failed (not_found w)"
          by (auto simp: unmatched_def)
        with w True show ?thesis
          by (auto simp: settle_race_def)
      next
        case False
        then have "race (settle_race ?s) = race s"
          by (auto simp: settle_race_def)
        with rc img show ?thesis by simp
      qed
      have at': "\<forall>t. settled_at (settle_race ?s) = Some t \<longrightarrow> t0 + tmo \<le> t"
      proof (intro allI impI)
        fix t assume "settled_at (settle_race ?s) = Some t"
        then have "settled_at ?s = Some t \<or> t = clock ?s"
          by (rule settled_at_settle_race)
        with at late show "t0 + tmo \<le> t" by auto
      qed
      from ok' doc ws' rc' at' show ?thesis
        unfolding st by (simp add: quiet_def)
    qed
  qed
qed

lemma pages_Cons: "set (pages (ev # evs)) = set (pages [ev]) \<union> set (pages evs)"
  by (cases ev) simp_all

lemma quiet_run:
  "quiet sels fs t0 tmo s \<Longrightarrow> \<forall>p \<in> set (pages evs). blank sels fs p \<Longrightarrow>
   quiet sels fs t0 tmo (finder_run evs s)"
proof (induction evs arbitrary: s)
  case Nil
  then show ?case by simp
next
  case (Cons ev evs)
  from Cons.prems(2) have "\<forall>p \<in> set (pages [ev]). blank sels fs p"
    and rest: "\<forall>p \<in> set (pages evs). blank sels fs p"
    using pages_Cons [of ev evs] by auto
  with Cons.prems(1) have "quiet sels fs t0 tmo (finder_step ev s)"
    by (simp add: quiet_step)
  with Cons.IH rest show ?case by simp
qed


lemma timeout_due_rejects:
  assumes ok: "finder_ok t0 tmo s" and i: "i < length (watchers s)" and late: "t0 + tmo \<le> clock s"
  shows "race (finder_step (TimeoutDue i) s) \<noteq> Pending"
proof -
  let ?s = "finder_step (TimeoutDue i) s"
  have ok': "finder_ok t0 tmo ?s"
    using ok by (rule finder_ok_step)
  have len: "length (watchers ?s) = length (watchers s)"
    by simp
  from timeout_due_settles [OF ok i late] have "promise (watchers ?s ! i) \<noteq> Pending" .
  moreover from i len have "watchers ?s ! i \<in> set (watchers ?s)"
    by (metis nth_mem)
  ultimately show ?thesis
    using ok' by (auto simp: finder_ok_def)
qed

text \<open>
  When \<^verbatim>\<open>querySelector\<close> accepts every selector of the list and nothing matches at the call
  nor on any state the page goes through, the call is never fulfilled; it is rejected
  only with the not-found error of one of its watchers, and not before the timeout has
  elapsed; and it is rejected as soon as a timeout timer fires, which it can from the
  deadline on.
\<close>

lemma findElement_rejects_not_before_deadline:
  assumes "blank sels (iframes pg) pg" and "\<forall>p \<in> set (pages evs). blank sels (iframes pg) p"
  shows "(race (finder_run evs (findElement sels tmo t0 pg)) = Pending
          \<or> race (finder_run evs (findElement sels tmo t0 pg))
              \<in> Failed ` not_found ` set (watchers (finder_run evs (findElement sels tmo t0 pg))))
         \<and> (\<forall>t. settled_at (finder_run evs (findElement sels tmo t0 pg)) = Some t \<longrightarrow> t0 + tmo \<le> t)
         \<and> (\<forall>i < length (watchers (finder_run evs (findElement sels tmo t0 pg))).
               t0 + tmo \<le> clock (finder_run evs (findElement sels tmo t0 pg))
               \<longrightarrow> race (finder_step (TimeoutDue i) (finder_run evs (findElement sels tmo t0 pg)))
                   \<noteq> Pending)"
proof -
  let ?s = "finder_run evs (findElement sels tmo t0 pg)"
  have q: "quiet sels (iframes pg) t0 tmo ?s"
    using assms by (simp add: quiet_run quiet_findElement)
  then have "finder_ok t0 tmo ?s"
    by (simp add: quiet_def)
  then have "\<forall>i < length (watchers ?s). t0 + tmo \<le> clock ?s
               \<longrightarrow> race (finder_step (TimeoutDue i) ?s) \<noteq> Pending"
    using timeout_due_rejects by blast
  with q show ?thesis
    by (simp add: quiet_def)
qed

text \<open>
  The same selectors on a page that has no button at all: nothing matches, at the
  call or later.
\<close>

definition page_without_button :: page where
  "page_without_button =
     \<lparr>querySelector = (\<lambda>sel. if str_includes sel '':contains('' then Throws else Null),
      querySelectorAll = (\<lambda>ty. []),
      iframes = [],
      contentDocument = (\<lambda>f. Inaccessible)\<rparr>"

text \<open>
  Claim C2, at an input of the repository's own. The call looks for the search button
  with the selectors of the configuration, default timeout 30000 ms, on a page where none
  of them ever matches and no button exists. The claim has the call rejected with a
  not-found error, and not before 30000 ms have passed. The call is rejected at the
  time of the call instead, with the \<^verbatim>\<open>SyntaxError\<close> that \<^verbatim>\<open>querySelector\<close> throws on the second
  selector; the watchers of the valid selectors go on watching until the deadline.
\<close>

theorem findElement_rejected_before_timeout:
  "map (immediate page_without_button) buttons_search = [None, None, None, None, None]
   \<and> find_by_text page_without_button ''button'' (first_selector buttons_search) = NoSuchText
   \<and> race (findElement buttons_search elementWait 0 page_without_button)
       = Failed (invalid_selector (buttons_search ! 1))
   \<and> settled_at (findElement buttons_search elementWait 0 page_without_button) = Some 0
   \<and> elementWait = 30000
   \<and> promise (watchers (findElement buttons_search elementWait 0 page_without_button) ! 0) = Pending
   \<and> timeoutId (watchers (findElement buttons_search elementWait 0 page_without_button) ! 0)
       = Some 30000"
  by (simp add: finder_defs immediate_def first_selector_def buttons_search_def
      page_without_button_def Let_def str_includes_def sublist_code)

section \<open>Network idle wait (utils.ts, ElementFinder.waitForNetworkIdle)\<close>

text \<open>
  A function value of the page: a native one, or the wrapper that call number \<open>n\<close> of
  \<^verbatim>\<open>waitForNetworkIdle\<close> has made around the function it found.
\<close>

datatype fn = Native string | Wrapper nat fn

text \<open>
  One call of \<^verbatim>\<open>waitForNetworkIdle\<close> and the globals it patches: \<^verbatim>\<open>Date.now()\<close>,
  \<^verbatim>\<open>XMLHttpRequest.prototype.open\<close> and \<^verbatim>\<open>window.fetch\<close> as they are now, the variables of
  the closure, the interval timer (\<open>Some\<close> of the time it is next due while it is
  active), the timer of the maximum wait (\<open>Some\<close> of its due time until it has fired;
  nothing clears it), and the promise returned.
\<close>

record idle_wait =
  date_now :: nat
  XHR_open :: fn
  window_fetch :: fn
  lastActivity :: nat
  requestCount :: int
  originalXHROpen :: fn
  originalFetch :: fn
  intervalId :: "nat option"
  maxWait :: "nat option"
  idle :: "unit promise"

text \<open>The executor: it saves the two functions, installs its wrappers and starts the timers.\<close>

definition waitForNetworkIdle :: "nat \<Rightarrow> nat \<Rightarrow> nat \<Rightarrow> fn \<Rightarrow> fn \<Rightarrow> idle_wait" where
  "waitForNetworkIdle n tmo now open0 fetch0 =
     \<lparr>date_now = now, XHR_open = Wrapper n open0, window_fetch = Wrapper n fetch0,
      lastActivity = now, requestCount = 0,
      originalXHROpen = open0, originalFetch = fetch0,
      intervalId = Some (now + 100), maxWait = Some (now + tmo), idle = Pending\<rparr>"

definition resolve_idle :: "idle_wait \<Rightarrow> idle_wait" where
  "resolve_idle s = (if idle s = Pending then s\<lparr>idle := Fulfilled ()\<rparr> else s)"

text \<open>The body shared by the wrappers when a request starts, and when one ends.\<close>

definition request_started :: "idle_wait \<Rightarrow> idle_wait" where
  "request_started s = s\<lparr>requestCount := requestCount s + 1, lastActivity := date_now s\<rparr>"

definition request_ended :: "idle_wait \<Rightarrow> idle_wait" where
  "request_ended s = s\<lparr>requestCount := requestCount s - 1, lastActivity := date_now s\<rparr>"

definition restore :: "idle_wait \<Rightarrow> idle_wait" where
  "restore s = s\<lparr>XHR_open := originalXHROpen s, window_fetch := originalFetch s\<rparr>"

text \<open>\<^verbatim>\<open>checkIdle\<close>, the callback of \<^verbatim>\<open>setInterval(checkIdle, 100)\<close>.\<close>

definition checkIdle :: "idle_wait \<Rightarrow> idle_wait" where
  "checkIdle s =
     (let idleTime = date_now s - lastActivity s in
      if requestCount s = 0 \<and> idleTime > 500
      then resolve_idle (restore (s\<lparr>intervalId := None\<rparr>))
      else s\<lparr>intervalId := Some (date_now s + 100)\<rparr>)"

text \<open>The callback of \<^verbatim>\<open>setTimeout(..., timeout)\<close>, the maximum wait.\<close>

definition maximum_wait :: "idle_wait \<Rightarrow> idle_wait" where
  "maximum_wait s = resolve_idle (restore (s\<lparr>maxWait := None, intervalId := None\<rparr>))"

text \<open>
  What happens after the call: time passes; a wrapper of this call is invoked (by the
  page, through the global or through a reference kept to it) or a request it counted
  ends; a timer fires, when active and due; other code assigns the globals.
\<close>

datatype net_event =
    Pass nat
  | OpenCalled
  | LoadEnd
  | FetchCalled
  | FetchSettled
  | IdleCheckDue
  | MaxWaitDue
  | Assigned fn fn

fun idle_step :: "net_event \<Rightarrow> idle_wait \<Rightarrow> idle_wait" where
  "idle_step (Pass n) s = s\<lparr>date_now := date_now s + n\<rparr>"
| "idle_step OpenCalled s = request_started s"
| "idle_step LoadEnd s = request_ended s"
| "idle_step FetchCalled s = request_started s"
| "idle_step FetchSettled s = request_ended s"
| "idle_step IdleCheckDue s = (if due (intervalId s) (date_now s) then checkIdle s else s)"
| "idle_step MaxWaitDue s = (if due (maxWait s) (date_now s) then maximum_wait s else s)"
| "idle_step (Assigned o' f') s = s\<lparr>XHR_open := o', window_fetch := f'\<rparr>"

fun idle_run :: "net_event list \<Rightarrow> idle_wait \<Rightarrow> idle_wait" where
  "idle_run [] s = s"
| "idle_run (e # es) s = idle_run es (idle_step e s)"

section \<open>Properties of the network idle wait\<close>

definition idle_ok :: "nat \<Rightarrow> nat \<Rightarrow> fn \<Rightarrow> fn \<Rightarrow> idle_wait \<Rightarrow> bool" where
  "idle_ok t0 tmo open0 fetch0 s =
     (originalXHROpen s = open0 \<and> originalFetch s = fetch0
      \<and> (idle s = Pending \<or> idle s = Fulfilled ())
      \<and> (idle s = Pending \<longrightarrow> maxWait s = Some (t0 + tmo)))"

lemmas idle_defs = resolve_idle_def request_started_def request_ended_def restore_def
  checkIdle_def maximum_wait_def due_def

lemma idle_ok_start: "idle_ok t0 tmo open0 fetch0 (waitForNetworkIdle n tmo t0 open0 fetch0)"
  by (simp add: idle_ok_def waitForNetworkIdle_def)

lemma idle_ok_step: "idle_ok t0 tmo open0 fetch0 s \<Longrightarrow> idle_ok t0 tmo open0 fetch0 (idle_step e s)"
  by (cases e) (auto simp: idle_ok_def idle_defs Let_def)

lemma idle_ok_run: "idle_ok t0 tmo open0 fetch0 s \<Longrightarrow> idle_ok t0 tmo open0 fetch0 (idle_run evs s)"
  by (induction evs arbitrary: s) (simp_all add: idle_ok_step)

lemma idle_step_resolves_restored:
  assumes "idle_ok t0 tmo open0 fetch0 s" "idle s = Pending" "idle (idle_step e s) \<noteq> Pending"
  shows "XHR_open (idle_step e s) = open0 \<and> window_fetch (idle_step e s) = fetch0"
  using assms
  by (cases e) (auto simp: idle_ok_def idle_defs Let_def split: if_splits)

lemma maximum_wait_resolves:
  assumes "idle_ok t0 tmo open0 fetch0 s" "t0 + tmo \<le> date_now s"
  shows "idle (idle_step MaxWaitDue s) = Fulfilled ()"
  using assms
  by (auto simp: idle_ok_def idle_defs)

text \<open>
  Claim C3. Whatever happens after a call of \<^verbatim>\<open>waitForNetworkIdle\<close> (requests, timers,
  even other code assigning the two globals), its promise is never rejected; at the
  event at which it resolves, by the idle check or by the maximum wait, the call has just
  put back the values that \<^verbatim>\<open>XMLHttpRequest.prototype.open\<close> and \<^verbatim>\<open>window.fetch\<close> had at the
  call; and it does resolve: the timer of the maximum wait, firing when due, resolves it.
\<close>

theorem waitForNetworkIdle_resolves_with_originals_restored:
  "(\<forall>err. idle (idle_run evs (waitForNetworkIdle n tmo t0 open0 fetch0)) \<noteq> Failed err)
   \<and> (idle (idle_run evs (waitForNetworkIdle n tmo t0 open0 fetch0)) = Pending
       \<and> idle (idle_step e (idle_run evs (waitForNetworkIdle n tmo t0 open0 fetch0))) \<noteq> Pending
       \<longrightarrow> idle (idle_step e (idle_run evs (waitForNetworkIdle n tmo t0 open0 fetch0))) = Fulfilled ()
           \<and> XHR_open (idle_step e (idle_run evs (waitForNetworkIdle n tmo t0 open0 fetch0))) = open0
           \<and> window_fetch (idle_step e (idle_run evs (waitForNetworkIdle n tmo t0 open0 fetch0)))
               = fetch0)
   \<and> (t0 + tmo \<le> date_now (idle_run evs (waitForNetworkIdle n tmo t0 open0 fetch0))
       \<longrightarrow> idle (idle_step MaxWaitDue (idle_run evs (waitForNetworkIdle n tmo t0 open0 fetch0)))
           = Fulfilled ())"
proof -
  let ?s = "idle_run evs (waitForNetworkIdle n tmo t0 open0 fetch0)"
  have ok: "idle_ok t0 tmo open0 fetch0 ?s"
    by (simp add: idle_ok_run idle_ok_start)
  then have ok': "idle_ok t0 tmo open0 fetch0 (idle_step e ?s)"
    by (rule idle_ok_step)
  have "\<forall>err. idle ?s \<noteq> Failed err"
    using ok by (auto simp: idle_ok_def)
  moreover have "idle ?s = Pending \<and> idle (idle_step e ?s) \<noteq> Pending
       \<longrightarrow> idle (idle_step e ?s) = Fulfilled ()
           \<and> XHR_open (idle_step e ?s) = open0 \<and> window_fetch (idle_step e ?s) = fetch0"
    using idle_step_resolves_restored [OF ok, of e] ok'
    by (auto simp: idle_ok_def)
  moreover have "t0 + tmo \<le> date_now ?s \<longrightarrow> idle (idle_step MaxWaitDue ?s) = Fulfilled ()"
    using maximum_wait_resolves [OF ok] by blast
  ultimately show ?thesis by blast
qed

text \<open>
  A fetch that settles after 200 ms and 600 quiet ms more: the idle check resolves the
  call. A request that never ends: the maximum wait of 5000 ms resolves it. Both times
  the wrappers are installed until then and the native functions are back at the
  resolution.
\<close>

theorem waitForNetworkIdle_resolves_with_originals_restored_witness:
  "idle (idle_run [FetchCalled, Pass 200, FetchSettled, Pass 600]
           (waitForNetworkIdle 1 5000 0 (Native ''open'') (Native ''fetch''))) = Pending
   \<and> XHR_open (idle_run [FetchCalled, Pass 200, FetchSettled, Pass 600]
           (waitForNetworkIdle 1 5000 0 (Native ''open'') (Native ''fetch'')))
       = Wrapper 1 (Native ''open'')
   \<and> idle (idle_step IdleCheckDue
           (idle_run [FetchCalled, Pass 200, FetchSettled, Pass 600]
              (waitForNetworkIdle 1 5000 0 (Native ''open'') (Native ''fetch'')))) = Fulfilled ()
   \<and> XHR_open (idle_step IdleCheckDue
           (idle_run [FetchCalled, Pass 200, FetchSettled, Pass 600]
              (waitForNetworkIdle 1 5000 0 (Native ''open'') (Native ''fetch'')))) = Native ''open''
   \<and> window_fetch (idle_step IdleCheckDue
           (idle_run [FetchCalled, Pass 200, FetchSettled, Pass 600]
              (waitForNetworkIdle 1 5000 0 (Native ''open'') (Native ''fetch'')))) = Native ''fetch''
   \<and> idle (idle_run [OpenCalled, Pass 5000]
           (waitForNetworkIdle 1 5000 0 (Native ''open'') (Native ''fetch''))) = Pending
   \<and> idle (idle_step MaxWaitDue
           (idle_run [OpenCalled, Pass 5000]
              (waitForNetworkIdle 1 5000 0 (Native ''open'') (Native ''fetch'')))) = Fulfilled ()
   \<and> XHR_open (idle_step MaxWaitDue
           (idle_run [OpenCalled, Pass 5000]
              (waitForNetworkIdle 1 5000 0 (Native ''open'') (Native ''fetch'')))) = Native ''open''
   \<and> window_fetch (idle_step MaxWaitDue
           (idle_run [OpenCalled, Pass 5000]
              (waitForNetworkIdle 1 5000 0 (Native ''open'') (Native ''fetch'')))) = Native ''fetch''"
proof -
  define s1 where
    "s1 = idle_run [FetchCalled, Pass 200, FetchSettled, Pass 600]
            (waitForNetworkIdle 1 5000 0 (Native ''open'') (Native ''fetch''))"
  define s2 where
    "s2 = idle_run [OpenCalled, Pass 5000]
            (waitForNetworkIdle 1 5000 0 (Native ''open'') (Native ''fetch''))"
  note inst1 = waitForNetworkIdle_resolves_with_originals_restored
      [where evs = "[FetchCalled, Pass 200, FetchSettled, Pass 600]" and n = 1 and tmo = 5000
         and ?t0.0 = 0 and ?open0.0 = "Native ''open''" and ?fetch0.0 = "Native ''fetch''"
         and e = IdleCheckDue, folded s1_def]
  note inst2 = waitForNetworkIdle_resolves_with_originals_restored
      [where evs = "[OpenCalled, Pass 5000]" and n = 1 and tmo = 5000 and ?t0.0 = 0
         and ?open0.0 = "Native ''open''" and ?fetch0.0 = "Native ''fetch''"
         and e = MaxWaitDue, folded s2_def]
  have before1: "idle s1 = Pending" "XHR_open s1 = Wrapper 1 (Native ''open'')"
    and after1: "idle (idle_step IdleCheckDue s1) \<noteq> Pending"
    by (simp_all add: s1_def waitForNetworkIdle_def idle_defs)
  have before2: "idle s2 = Pending" and late2: "0 + 5000 \<le> date_now s2"
    by (simp_all add: s2_def waitForNetworkIdle_def idle_defs)
  have "idle (idle_step MaxWaitDue s2) = Fulfilled ()"
    by (rule inst2 [THEN conjunct2, THEN conjunct2, rule_format]) (rule late2)
  then have after2: "idle (idle_step MaxWaitDue s2) \<noteq> Pending"
    by simp
  have r1: "idle (idle_step IdleCheckDue s1) = Fulfilled ()
            \<and> XHR_open (idle_step IdleCheckDue s1) = Native ''open''
            \<and> window_fetch (idle_step IdleCheckDue s1) = Native ''fetch''"
    by (rule inst1 [THEN conjunct2, THEN conjunct1, rule_format])
       (rule conjI, rule before1(1), rule after1)
  have r2: "idle (idle_step MaxWaitDue s2) = Fulfilled ()
            \<and> XHR_open (idle_step MaxWaitDue s2) = Native ''open''
            \<and> window_fetch (idle_step MaxWaitDue s2) = Native ''fetch''"
    by (rule inst2 [THEN conjunct2, THEN conjunct1, rule_format])
       (rule conjI, rule before2, rule after2)
  have "idle s1 = Pending
   \<and> XHR_open s1 = Wrapper 1 (Native ''open'')
   \<and> idle (idle_step IdleCheckDue s1) = Fulfilled ()
   \<and> XHR_open (idle_step IdleCheckDue s1) = Native ''open''
   \<and> window_fetch (idle_step IdleCheckDue s1) = Native ''fetch''
   \<and> idle s2 = Pending
   \<and> idle (idle_step MaxWaitDue s2) = Fulfilled ()
   \<and> XHR_open (idle_step MaxWaitDue s2) = Native ''open''
   \<and> window_fetch (idle_step MaxWaitDue s2) = Native ''fetch''"
    using before1 before2 r1 r2 by (intro conjI) (erule conjE | assumption)+
  then show ?thesis
    unfolding s1_def s2_def .
qed

end
